theory Spec2Isabelle
  imports Complex_Main "HOL-Library.Word" "HOL-Library.Sublist" "HOL-Library.Multiset"
begin

section \<open>Data model (Order.h, OrderBook.h)\<close>

subsection \<open>\<open>double\<close>\<close>

text \<open>
  Prices are \<open>double\<close> in the source (IEEE 754 binary64, rounding to nearest, ties to
  even). A price that an order carries is a finite double and is modelled by the real number
  it denotes, so that \<open><\<close>, \<open><=\<close> and \<open>==\<close> on prices are those of the reals. The
  arithmetic of the source on prices, \<open>(a + b) / 2.0\<close> in \<open>executeTrade\<close> and \<open>a - b\<close> in
  \<open>getSpread\<close>, rounds and can overflow: its result is a \<open>double\<close> below, a finite value or
  an infinity. NaN does not arise from \<open>+\<close>, \<open>-\<close> and \<open>/ 2.0\<close> on finite operands; the two
  zeros are not told apart (they compare equal in the source).
\<close>

datatype double = Finite real | PlusInfinity | MinusInfinity

text \<open>The nearest integer, a tie going to the even one.\<close>

definition round_half_even :: "real \<Rightarrow> int" where
  "round_half_even x =
     (let f = \<lfloor>x\<rfloor>; d = x - of_int f
      in if d < 1/2 then f else if 1/2 < d then f + 1 else if even f then f else f + 1)"

text \<open>
  Rounding of a non-negative real counted in units of the least positive double
  \<open>2^-1074\<close>: below \<open>2^53\<close> units the doubles are the integers; from there on the spacing
  doubles with each binade.
\<close>

function round_units :: "real \<Rightarrow> real" where
  "round_units y =
     (if 2 ^ 53 \<le> y then 2 * round_units (y / 2) else of_int (round_half_even y))"
  by pat_completeness auto
termination
proof (relation "measure (\<lambda>y. nat \<lfloor>y\<rfloor>)", goal_cases)
  case 1
  show ?case by simp
next
  case (2 y)
  then have "y / 2 \<le> y - 1" by simp
  then have "\<lfloor>y / 2\<rfloor> \<le> \<lfloor>y - 1\<rfloor>" by (rule floor_mono)
  moreover have "0 < \<lfloor>y\<rfloor>" using 2 by simp
  ultimately show ?case by simp
qed

definition least_exponent :: nat where
  "least_exponent = 1074"

text \<open>
  The double nearest to a real: the greatest finite double is \<open>(2^53 - 1) * 2^971\<close>, and a
  real that rounds to \<open>2^1024\<close> or more overflows to the infinity of its sign.
\<close>

definition round_double :: "real \<Rightarrow> double" where
  "round_double x =
     (let r = round_units (\<bar>x\<bar> * 2 ^ least_exponent)
      in if 2 ^ (least_exponent + 1024) \<le> r
         then (if 0 < x then PlusInfinity else MinusInfinity)
         else Finite (sgn x * r / 2 ^ least_exponent))"

text \<open>The operators of the source on prices: \<open>a + b\<close>, \<open>a - b\<close> and \<open>x / 2.0\<close>.\<close>

definition double_plus :: "real \<Rightarrow> real \<Rightarrow> double" where
  "double_plus a b = round_double (a + b)"

definition double_minus :: "real \<Rightarrow> real \<Rightarrow> double" where
  "double_minus a b = round_double (a - b)"

definition double_halve :: "double \<Rightarrow> double" where
  "double_halve x =
     (case x of
        Finite r \<Rightarrow> round_double (r / 2)
      | PlusInfinity \<Rightarrow> PlusInfinity
      | MinusInfinity \<Rightarrow> MinusInfinity)"

text \<open>
  The finite double that a decimal literal of the source denotes (\<open>100.30\<close> is not a
  double; the compiler takes the nearest one).
\<close>

definition double_literal :: "real \<Rightarrow> real" where
  "double_literal x = (case round_double x of Finite r \<Rightarrow> r | _ \<Rightarrow> 0)"

definition is_double :: "real \<Rightarrow> bool" where
  "is_double x \<longleftrightarrow> round_double x = Finite x"

definition double_nonneg :: "double \<Rightarrow> bool" where
  "double_nonneg d =
     (case d of Finite x \<Rightarrow> 0 \<le> x | PlusInfinity \<Rightarrow> True | MinusInfinity \<Rightarrow> False)"

subsection \<open>Orders and trades\<close>

text \<open>
  The 64-bit unsigned fields of the source (\<open>orderId\<close>, \<open>quantity\<close>, \<open>timestamp\<close>) are
  \<open>64 word\<close>, so that subtraction and the depth sum wrap as in C++.
\<close>

datatype OrderSide = BUY | SELL

record Order =
  orderId :: "64 word"
  side :: OrderSide
  price :: real
  quantity :: "64 word"
  timestamp :: "64 word"

text \<open>
  A trade as handed to the callback. The \<open>timestamp\<close> field of the source's \<open>Trade\<close> is a
  reading of the clock at construction and is left out; the fields \<open>price\<close> and
  \<open>quantity\<close> are renamed because \<open>Order\<close> has fields of the same names.
\<close>

record Trade =
  buyOrderId :: "64 word"
  sellOrderId :: "64 word"
  tradePrice :: double
  tradeQuantity :: "64 word"

text \<open>The only exception of the source: the \<open>std::runtime_error\<close> of \<open>executeTrade\<close>.\<close>

datatype error = InvalidTrade

text \<open>
  An \<open>OrderPtr\<close> is a \<open>std::shared_ptr<Order>\<close>: the index and the price levels hold the
  same pointer, and a fill writes through it. Pointers are addresses into an explicit heap;
  the null pointer is \<open>None\<close> where a pointer is passed in.
\<close>

type_synonym addr = nat

subsection \<open>\<open>std::sort\<close>\<close>

text \<open>
  \<open>addOrderToPriceLevel\<close> sorts a level with \<open>std::sort\<close> and the comparison
  \<open>a->timestamp < b->timestamp\<close>. \<open>std::sort\<close> is code of the C++ library, not of the
  repository, and it is not a stable sort: it returns a permutation of the range that is
  sorted with respect to the comparison and leaves open the order of elements that compare
  equal. The book is therefore parametrised by the implementation of \<open>std::sort\<close>, which
  ranges over all functions that meet this contract; \<open>std_sort impl key xs\<close> is the
  vector \<open>xs\<close> after the call, for the comparison \<open>key a < key b\<close>.
\<close>

typedef sort_implementation =
  "{srt :: (addr \<Rightarrow> 64 word) \<Rightarrow> addr list \<Rightarrow> addr list.
      \<forall>key xs. mset (srt key xs) = mset xs \<and> sorted (map key (srt key xs))}"
  morphisms std_sort Abs_sort_implementation
  by (rule exI[of _ sort_key]) simp

text \<open>One implementation, used to run the scenarios: the stable sort.\<close>

definition stable_sort :: sort_implementation where
  "stable_sort = Abs_sort_implementation sort_key"

subsection \<open>\<open>std::map\<close> as a list of pairs in ascending key order\<close>

definition m_find :: "'k \<Rightarrow> ('k \<times> 'v) list \<Rightarrow> 'v option" where
  "m_find k m = map_of m k"

definition m_erase :: "'k \<Rightarrow> ('k \<times> 'v) list \<Rightarrow> ('k \<times> 'v) list" where
  "m_erase k m = filter (\<lambda>kv. fst kv \<noteq> k) m"

text \<open>\<open>m[k] = v\<close>: replace the value at an existing key, or insert at the key's place.\<close>

fun m_put :: "'k::linorder \<Rightarrow> 'v \<Rightarrow> ('k \<times> 'v) list \<Rightarrow> ('k \<times> 'v) list" where
  "m_put k v [] = [(k, v)]"
| "m_put k v ((k', v') # m) =
     (if k < k' then (k, v) # (k', v') # m
      else if k = k' then (k, v) # m
      else (k', v') # m_put k v m)"

type_synonym PriceLevelMap = "(real \<times> addr list) list"
type_synonym OrderMap = "(64 word \<times> addr) list"

text \<open>
  The state: the heap of orders the pointers refer to, the three containers of the class
  (\<open>orders_\<close>, \<open>bids_\<close>, \<open>asks_\<close>), and the sequence of trades passed to the callback so far.
\<close>

record OrderBook =
  heap :: "addr \<Rightarrow> Order"
  orders :: OrderMap
  bids :: PriceLevelMap
  asks :: PriceLevelMap
  trades :: "Trade list"

definition empty_book :: "(addr \<Rightarrow> Order) \<Rightarrow> OrderBook" where
  "empty_book h = \<lparr>heap = h, orders = [], bids = [], asks = [], trades = []\<rparr>"

section \<open>Operations (OrderBook.cpp)\<close>

definition getPriceLevelMap :: "OrderSide \<Rightarrow> OrderBook \<Rightarrow> PriceLevelMap" where
  "getPriceLevelMap sd s = (if sd = BUY then bids s else asks s)"

text \<open>Writing through the reference that \<open>getPriceLevelMap\<close> returns.\<close>

definition setPriceLevelMap :: "OrderSide \<Rightarrow> PriceLevelMap \<Rightarrow> OrderBook \<Rightarrow> OrderBook" where
  "setPriceLevelMap sd m s = (if sd = BUY then s\<lparr>bids := m\<rparr> else s\<lparr>asks := m\<rparr>)"

definition removeOrderFromPriceLevel :: "OrderBook \<Rightarrow> addr \<Rightarrow> OrderBook" where
  "removeOrderFromPriceLevel s a =
     (let sd = side (heap s a);
          p = price (heap s a);
          priceMap = getPriceLevelMap sd s
      in case m_find p priceMap of
           None \<Rightarrow> s
         | Some ordersAtPrice \<Rightarrow>
             if a \<in> set ordersAtPrice
             then (let rest = remove1 a ordersAtPrice
                   in if rest = [] then setPriceLevelMap sd (m_erase p priceMap) s
                      else setPriceLevelMap sd (m_put p rest priceMap) s)
             else s)"

text \<open>\<open>push_back\<close> on the level of the price (created when absent), then \<open>std::sort\<close>.\<close>

definition addOrderToPriceLevel :: "sort_implementation \<Rightarrow> OrderBook \<Rightarrow> addr \<Rightarrow> OrderBook" where
  "addOrderToPriceLevel impl s a =
     (let sd = side (heap s a);
          p = price (heap s a);
          priceMap = getPriceLevelMap sd s;
          ordersAtPrice = (case m_find p priceMap of None \<Rightarrow> [] | Some l \<Rightarrow> l) @ [a]
      in setPriceLevelMap sd
           (m_put p (std_sort impl (\<lambda>b. timestamp (heap s b)) ordersAtPrice) priceMap) s)"

definition executeTrade :: "Order \<Rightarrow> Order \<Rightarrow> 64 word \<Rightarrow> error + Trade" where
  "executeTrade buyOrder sellOrder qty =
     (if side buyOrder \<noteq> BUY \<or> side sellOrder \<noteq> SELL then Inl InvalidTrade
      else Inr \<lparr>buyOrderId = orderId buyOrder, sellOrderId = orderId sellOrder,
                tradePrice = double_halve (double_plus (price buyOrder) (price sellOrder)),
                tradeQuantity = qty\<rparr>)"

text \<open>
  The body of the inner loop of \<open>matchOrders\<close>, for the incoming order \<open>n\<close> and the front
  \<open>opp\<close> of the level: the trade, then the two writes through the pointers, in the
  source's order.
\<close>

definition match_step ::
  "addr \<Rightarrow> addr \<Rightarrow> (addr \<Rightarrow> Order) \<Rightarrow> error + (Trade \<times> (addr \<Rightarrow> Order))" where
  "match_step n opp h =
     (let tradeQuantity = min (quantity (h n)) (quantity (h opp))
      in case (if side (h n) = BUY then executeTrade (h n) (h opp) tradeQuantity
               else executeTrade (h opp) (h n) tradeQuantity) of
           Inl e \<Rightarrow> Inl e
         | Inr t \<Rightarrow>
             (let h1 = h(n := (h n)\<lparr>quantity := quantity (h n) - tradeQuantity\<rparr>);
                  h2 = h1(opp := (h1 opp)\<lparr>quantity := quantity (h1 opp) - tradeQuantity\<rparr>)
              in Inr (t, h2)))"

lemma match_step_progress:
  assumes "match_step n opp h = Inr (t, h')"
  shows "opp \<noteq> n" and "quantity (h' opp) = 0 \<or> quantity (h' n) = 0"
proof -
  show ne: "opp \<noteq> n"
    using assms by (auto simp: match_step_def executeTrade_def Let_def split: if_splits)
  have "h' = (h(n := (h n)\<lparr>quantity := quantity (h n) - min (quantity (h n)) (quantity (h opp))\<rparr>))
             (opp := (h opp)\<lparr>quantity := quantity (h opp) - min (quantity (h n)) (quantity (h opp))\<rparr>)"
    using assms ne by (auto simp: match_step_def executeTrade_def Let_def split: if_splits)
  then show "quantity (h' opp) = 0 \<or> quantity (h' n) = 0"
    using ne by (auto simp: min_def)
qed

text \<open>
  The inner loop \<open>while (!ordersAtPrice.empty() && newOrder->quantity > 0)\<close>, on the heap,
  the index, the vector of the level and the trades emitted so far.
\<close>

function match_level ::
  "addr \<Rightarrow> (addr \<Rightarrow> Order) \<Rightarrow> OrderMap \<Rightarrow> addr list \<Rightarrow> Trade list
     \<Rightarrow> error + ((addr \<Rightarrow> Order) \<times> OrderMap \<times> addr list \<times> Trade list)" where
  "match_level n h idx ordersAtPrice tr =
     (if ordersAtPrice \<noteq> [] \<and> quantity (h n) \<noteq> 0 then
        (case match_step n (hd ordersAtPrice) h of
           Inl e \<Rightarrow> Inl e
         | Inr (t, h') \<Rightarrow>
             if quantity (h' (hd ordersAtPrice)) = 0
             then match_level n h' (m_erase (orderId (h' (hd ordersAtPrice))) idx)
                    (tl ordersAtPrice) (tr @ [t])
             else match_level n h' idx ordersAtPrice (tr @ [t]))
      else Inr (h, idx, ordersAtPrice, tr))"
  by pat_completeness auto
termination
proof (relation "measure (\<lambda>(n, h, idx, l, tr). 2 * length l + (if quantity (h n) \<noteq> 0 then 1 else 0))",
       goal_cases)
  case 1
  show ?case by simp
next
  case (2 n h idx l tr x t h')
  then show ?case by (cases l) auto
next
  case (3 n h idx l tr x t h')
  then have "match_step n (hd l) h = Inr (t, h')" by simp
  from match_step_progress(2)[OF this] 3 show ?case by auto
qed

lemma match_level_exit:
  "match_level n h idx l tr = Inr (h', idx', l', tr') \<Longrightarrow> l' = [] \<or> quantity (h' n) = 0"
proof (induction n h idx l tr rule: match_level.induct)
  case (1 n h idx l tr)
  show ?case
  proof (cases "l \<noteq> [] \<and> quantity (h n) \<noteq> 0")
    case False
    with "1.prems" show ?thesis by auto
  next
    case True
    then obtain t h1 where st: "match_step n (hd l) h = Inr (t, h1)"
      using "1.prems" by (auto split: sum.splits)
    show ?thesis
    proof (cases "quantity (h1 (hd l)) = 0")
      case z: True
      from "1.prems" True st z "1.IH"(1)[OF True st refl z] show ?thesis by simp
    next
      case nz: False
      from "1.prems" True st nz "1.IH"(2)[OF True st refl nz] show ?thesis by simp
    qed
  qed
qed

text \<open>
  The iterator \<open>priceLevelIt\<close> of \<open>matchOrders\<close>: \<open>begin()\<close> for an incoming BUY,
  \<open>--end()\<close> for an incoming SELL; erasing at it, and the node after the inner loop has
  written through \<open>ordersAtPrice\<close>.
\<close>

definition best_level :: "OrderSide \<Rightarrow> PriceLevelMap \<Rightarrow> real \<times> addr list" where
  "best_level sd m = (if sd = BUY then hd m else last m)"

definition erase_best :: "OrderSide \<Rightarrow> PriceLevelMap \<Rightarrow> PriceLevelMap" where
  "erase_best sd m = (if sd = BUY then tl m else butlast m)"

definition write_best :: "OrderSide \<Rightarrow> real \<times> addr list \<Rightarrow> PriceLevelMap \<Rightarrow> PriceLevelMap" where
  "write_best sd x m = (if sd = BUY then x # tl m else butlast m @ [x])"

definition canMatch :: "Order \<Rightarrow> real \<Rightarrow> bool" where
  "canMatch newOrder oppositePrice =
     (if side newOrder = BUY then price newOrder \<ge> oppositePrice
      else price newOrder \<le> oppositePrice)"

text \<open>The outer loop \<open>while (newOrder->quantity > 0 && !oppositeSide.empty())\<close>.\<close>

function match_loop ::
  "addr \<Rightarrow> (addr \<Rightarrow> Order) \<Rightarrow> OrderMap \<Rightarrow> PriceLevelMap \<Rightarrow> Trade list
     \<Rightarrow> error + ((addr \<Rightarrow> Order) \<times> OrderMap \<times> PriceLevelMap \<times> Trade list)" where
  "match_loop n h idx oppositeSide tr =
     (if quantity (h n) \<noteq> 0 \<and> oppositeSide \<noteq> [] then
        (if \<not> canMatch (h n) (fst (best_level (side (h n)) oppositeSide))
         then Inr (h, idx, oppositeSide, tr)
         else
           (case match_level n h idx (snd (best_level (side (h n)) oppositeSide)) tr of
              Inl e \<Rightarrow> Inl e
            | Inr (h', idx', ordersAtPrice, tr') \<Rightarrow>
                if ordersAtPrice = []
                then match_loop n h' idx' (erase_best (side (h n)) oppositeSide) tr'
                else match_loop n h' idx'
                       (write_best (side (h n))
                          (fst (best_level (side (h n)) oppositeSide), ordersAtPrice)
                          oppositeSide) tr'))
      else Inr (h, idx, oppositeSide, tr))"
  by pat_completeness auto
termination
proof (relation "measure (\<lambda>(n, h, idx, m, tr). 2 * length m + (if quantity (h n) \<noteq> 0 then 1 else 0))",
       goal_cases)
  case 1
  show ?case by simp
next
  case (2 n h idx m tr x h' y idx' z l' tr')
  then show ?case by (cases m) (auto simp: erase_best_def)
next
  case (3 n h idx m tr x h' y idx' z l' tr')
  then have "match_level n h idx (snd (best_level (side (h n)) m)) tr = Inr (h', idx', l', tr')"
    by simp
  from match_level_exit[OF this] 3 show ?case
    by (cases m) (auto simp: write_best_def)
qed

definition matchOrders :: "OrderBook \<Rightarrow> addr \<Rightarrow> error + OrderBook" where
  "matchOrders s newOrder =
     (let sd = side (heap s newOrder);
          oppositeSide = (if sd = BUY then asks s else bids s)
      in case match_loop newOrder (heap s) (orders s) oppositeSide (trades s) of
           Inl e \<Rightarrow> Inl e
         | Inr (h', idx', opp', tr') \<Rightarrow>
             (let s1 = (if sd = BUY
                        then s\<lparr>heap := h', orders := idx', asks := opp', trades := tr'\<rparr>
                        else s\<lparr>heap := h', orders := idx', bids := opp', trades := tr'\<rparr>)
              in if quantity (h' newOrder) = 0
                 then Inr (removeOrderFromPriceLevel
                             (s1\<lparr>orders := m_erase (orderId (h' newOrder)) idx'\<rparr>) newOrder)
                 else Inr s1))"

definition addOrder ::
  "sort_implementation \<Rightarrow> OrderBook \<Rightarrow> addr option \<Rightarrow> error + (bool \<times> OrderBook)" where
  "addOrder impl s order =
     (case order of
        None \<Rightarrow> Inr (False, s)
      | Some a \<Rightarrow>
          if quantity (heap s a) = 0 then Inr (False, s)
          else if m_find (orderId (heap s a)) (orders s) \<noteq> None then Inr (False, s)
          else (case matchOrders
                       (addOrderToPriceLevel impl
                          (s\<lparr>orders := m_put (orderId (heap s a)) a (orders s)\<rparr>) a) a of
                  Inl e \<Rightarrow> Inl e
                | Inr s' \<Rightarrow> Inr (True, s')))"

definition cancelOrder :: "OrderBook \<Rightarrow> 64 word \<Rightarrow> bool \<times> OrderBook" where
  "cancelOrder s oid =
     (case m_find oid (orders s) of
        None \<Rightarrow> (False, s)
      | Some order \<Rightarrow>
          (True, (removeOrderFromPriceLevel s order)\<lparr>orders := m_erase oid (orders s)\<rparr>))"

text \<open>
  \<open>modifyOrder\<close> reads the clock for the new timestamp; the reading is the argument
  \<open>now\<close>.
\<close>

definition modifyOrder ::
  "sort_implementation \<Rightarrow> OrderBook \<Rightarrow> 64 word \<Rightarrow> real \<Rightarrow> 64 word \<Rightarrow> 64 word
     \<Rightarrow> error + (bool \<times> OrderBook)" where
  "modifyOrder impl s oid newPrice newQuantity now =
     (case m_find oid (orders s) of
        None \<Rightarrow> Inr (False, s)
      | Some order \<Rightarrow>
          (let s1 = removeOrderFromPriceLevel s order;
               s2 = s1\<lparr>heap := (heap s1)(order := (heap s1 order)
                          \<lparr>price := newPrice, quantity := newQuantity, timestamp := now\<rparr>)\<rparr>;
               s3 = addOrderToPriceLevel impl s2 order
           in case matchOrders s3 order of
                Inl e \<Rightarrow> Inl e
              | Inr s' \<Rightarrow> Inr (True, s')))"

definition getBestBid :: "OrderBook \<Rightarrow> real option" where
  "getBestBid s = (if bids s = [] then None else Some (fst (last (bids s))))"

definition getBestAsk :: "OrderBook \<Rightarrow> real option" where
  "getBestAsk s = (if asks s = [] then None else Some (fst (hd (asks s))))"

definition getSpread :: "OrderBook \<Rightarrow> double option" where
  "getSpread s =
     (case getBestBid s of
        None \<Rightarrow> None
      | Some bestBid \<Rightarrow>
          (case getBestAsk s of
             None \<Rightarrow> None
           | Some bestAsk \<Rightarrow> Some (double_minus bestAsk bestBid)))"

definition getDepthAtPrice :: "OrderBook \<Rightarrow> real \<Rightarrow> OrderSide \<Rightarrow> 64 word" where
  "getDepthAtPrice s p sd =
     (case m_find p (getPriceLevelMap sd s) of
        None \<Rightarrow> 0
      | Some l \<Rightarrow> foldl (\<lambda>totalQuantity a. totalQuantity + quantity (heap s a)) 0 l)"

definition getOrderCount :: "OrderBook \<Rightarrow> nat" where
  "getOrderCount s = length (orders s)"

definition clear :: "OrderBook \<Rightarrow> OrderBook" where
  "clear s = s\<lparr>orders := [], bids := [], asks := []\<rparr>"

declare match_level.simps [simp del] match_loop.simps [simp del] round_units.simps [simp del]

section \<open>Scenarios of the test suite (tests/simple\_test.cpp)\<close>

definition default_order :: Order where
  "default_order = \<lparr>orderId = 0, side = BUY, price = 0, quantity = 0, timestamp = 0\<rparr>"

text \<open>Submitting a sequence of orders, each by \<open>addOrder\<close>, as the tests do.\<close>

fun addOrders :: "sort_implementation \<Rightarrow> OrderBook \<Rightarrow> addr list \<Rightarrow> error + OrderBook" where
  "addOrders impl s [] = Inr s"
| "addOrders impl s (a # as) =
     (case addOrder impl s (Some a) of Inl e \<Rightarrow> Inl e | Inr (ok, s') \<Rightarrow> addOrders impl s' as)"

text \<open>\<open>testPartialOrderMatching\<close>: SELL 1 at 100.50 for 100, then BUY 2 at 100.50 for 150.\<close>

definition testPartialOrderMatching_heap :: "addr \<Rightarrow> Order" where
  "testPartialOrderMatching_heap =
     (\<lambda>_. default_order)
       (1 := \<lparr>orderId = 1, side = SELL, price = 100.5, quantity = 100, timestamp = 1\<rparr>,
        2 := \<lparr>orderId = 2, side = BUY, price = 100.5, quantity = 150, timestamp = 2\<rparr>)"

text \<open>
  \<open>testMarketCrossingOrders\<close>: two bids and two asks that do not cross, then SELL 5 at
  100.30 for 75.
\<close>

definition testMarketCrossingOrders_heap :: "addr \<Rightarrow> Order" where
  "testMarketCrossingOrders_heap =
     (\<lambda>_. default_order)
       (1 := \<lparr>orderId = 1, side = BUY, price = 100.5, quantity = 100, timestamp = 1\<rparr>,
        2 := \<lparr>orderId = 2, side = BUY, price = 100.25, quantity = 200, timestamp = 2\<rparr>,
        3 := \<lparr>orderId = 3, side = SELL, price = 101, quantity = 150, timestamp = 3\<rparr>,
        4 := \<lparr>orderId = 4, side = SELL, price = 101.25, quantity = 100, timestamp = 4\<rparr>,
        5 := \<lparr>orderId = 5, side = SELL, price = double_literal 100.3, quantity = 75,
              timestamp = 5\<rparr>)"

section \<open>The invariant of the book\<close>

definition keys_ok :: "('k::linorder \<times> 'v) list \<Rightarrow> bool" where
  "keys_ok m \<longleftrightarrow> sorted (map fst m) \<and> distinct (map fst m)"

definition addrs :: "PriceLevelMap \<Rightarrow> addr set" where
  "addrs m = (\<Union>lv\<in>set m. set (snd lv))"

definition level_ok :: "(addr \<Rightarrow> Order) \<Rightarrow> OrderSide \<Rightarrow> real \<times> addr list \<Rightarrow> bool" where
  "level_ok h sd lv \<longleftrightarrow>
     snd lv \<noteq> [] \<and> distinct (snd lv) \<and> sorted (map (\<lambda>a. timestamp (h a)) (snd lv)) \<and>
     (\<forall>a\<in>set (snd lv). side (h a) = sd \<and> price (h a) = fst lv)"

definition side_ok :: "(addr \<Rightarrow> Order) \<Rightarrow> OrderSide \<Rightarrow> PriceLevelMap \<Rightarrow> bool" where
  "side_ok h sd m \<longleftrightarrow> keys_ok m \<and> (\<forall>lv\<in>set m. level_ok h sd lv)"

definition index_ok :: "(addr \<Rightarrow> Order) \<Rightarrow> OrderMap \<Rightarrow> bool" where
  "index_ok h idx \<longleftrightarrow> keys_ok idx \<and> (\<forall>ka\<in>set idx. orderId (h (snd ka)) = fst ka)"

definition map_remove :: "real \<Rightarrow> addr \<Rightarrow> PriceLevelMap \<Rightarrow> PriceLevelMap" where
  "map_remove p a m =
     (case m_find p m of
        None \<Rightarrow> m
      | Some l \<Rightarrow>
          if a \<in> set l
          then (if remove1 a l = [] then m_erase p m else m_put p (remove1 a l) m)
          else m)"

definition map_add ::
  "sort_implementation \<Rightarrow> (addr \<Rightarrow> Order) \<Rightarrow> real \<Rightarrow> addr \<Rightarrow> PriceLevelMap \<Rightarrow> PriceLevelMap" where
  "map_add impl h p a m =
     m_put p (std_sort impl (\<lambda>b. timestamp (h b))
                ((case m_find p m of None \<Rightarrow> [] | Some l \<Rightarrow> l) @ [a])) m"

definition same_static :: "(addr \<Rightarrow> Order) \<Rightarrow> (addr \<Rightarrow> Order) \<Rightarrow> bool" where
  "same_static h h' \<longleftrightarrow>
     (\<forall>a. orderId (h' a) = orderId (h a) \<and> side (h' a) = side (h a) \<and>
          price (h' a) = price (h a) \<and> timestamp (h' a) = timestamp (h a))"

definition level_post ::
  "addr \<Rightarrow> (addr \<Rightarrow> Order) \<Rightarrow> OrderMap \<Rightarrow> addr list
     \<Rightarrow> (addr \<Rightarrow> Order) \<times> OrderMap \<times> addr list \<times> Trade list \<Rightarrow> bool" where
  "level_post n h idx l res \<longleftrightarrow>
     (case res of (h', idx', l', tr') \<Rightarrow>
        (\<exists>r. l = r @ l' \<and> idx' = filter (\<lambda>kv. fst kv \<notin> orderId ` h ` set r) idx)
        \<and> same_static h h'
        \<and> (\<forall>a. a \<noteq> n \<longrightarrow> a \<notin> set l \<longrightarrow> h' a = h a)
        \<and> (\<forall>a\<in>set l'. quantity (h a) \<noteq> 0 \<longrightarrow> quantity (h' a) \<noteq> 0)
        \<and> (l' = [] \<or> quantity (h' n) = 0))"

definition other_side :: "OrderSide \<Rightarrow> OrderSide" where
  "other_side sd = (if sd = BUY then SELL else BUY)"

definition apart :: "OrderSide \<Rightarrow> real \<Rightarrow> real \<Rightarrow> bool" where
  "apart sd own_price opp_price \<longleftrightarrow>
     (if sd = BUY then own_price < opp_price else opp_price < own_price)"

definition crossfree :: "OrderSide \<Rightarrow> addr \<Rightarrow> PriceLevelMap \<Rightarrow> PriceLevelMap \<Rightarrow> bool" where
  "crossfree sd n own opp \<longleftrightarrow>
     (\<forall>x\<in>set own. \<forall>y\<in>set opp. apart sd (fst x) (fst y) \<or> snd x = [n])"

definition mid_inv ::
  "addr \<Rightarrow> (addr \<Rightarrow> Order) \<Rightarrow> OrderMap \<Rightarrow> PriceLevelMap \<Rightarrow> PriceLevelMap \<Rightarrow> bool" where
  "mid_inv n h idx own opp \<longleftrightarrow>
     index_ok h idx \<and> side_ok h (side (h n)) own \<and> side_ok h (other_side (side (h n))) opp \<and>
     snd ` set idx = addrs own \<union> addrs opp \<and>
     (\<forall>ka\<in>set idx. snd ka \<noteq> n \<longrightarrow> quantity (h (snd ka)) \<noteq> 0) \<and>
     crossfree (side (h n)) n own opp"

definition loop_post ::
  "addr \<Rightarrow> (addr \<Rightarrow> Order) \<Rightarrow> PriceLevelMap
     \<Rightarrow> (addr \<Rightarrow> Order) \<times> OrderMap \<times> PriceLevelMap \<times> Trade list \<Rightarrow> bool" where
  "loop_post n h own res \<longleftrightarrow>
     (case res of (h', idx', opp', tr') \<Rightarrow>
        mid_inv n h' idx' own opp' \<and> same_static h h' \<and>
        (quantity (h' n) \<noteq> 0 \<longrightarrow>
           (\<forall>x\<in>set own. \<forall>y\<in>set opp'. apart (side (h n)) (fst x) (fst y))))"

definition no_cross :: "PriceLevelMap \<Rightarrow> PriceLevelMap \<Rightarrow> bool" where
  "no_cross bs as \<longleftrightarrow> (\<forall>b\<in>set bs. \<forall>a\<in>set as. fst b < fst a)"

definition book_inv :: "OrderBook \<Rightarrow> bool" where
  "book_inv s \<longleftrightarrow>
     index_ok (heap s) (orders s) \<and>
     side_ok (heap s) BUY (bids s) \<and> side_ok (heap s) SELL (asks s) \<and>
     snd ` set (orders s) = addrs (bids s) \<union> addrs (asks s) \<and>
     (\<forall>ka\<in>set (orders s). quantity (heap s (snd ka)) \<noteq> 0) \<and>
     no_cross (bids s) (asks s)"

definition well_formed :: "OrderBook \<Rightarrow> bool" where
  "well_formed s \<longleftrightarrow>
     (\<forall>sd. \<forall>lv\<in>set (getPriceLevelMap sd s).
        snd lv \<noteq> [] \<and> m_find (fst lv) (getPriceLevelMap sd s) = Some (snd lv) \<and>
        (\<forall>a\<in>set (snd lv).
           m_find (orderId (heap s a)) (orders s) = Some a \<and> quantity (heap s a) \<noteq> 0)) \<and>
     (\<forall>ka\<in>set (orders s).
        quantity (heap s (snd ka)) \<noteq> 0 \<and>
        (\<exists>l. m_find (price (heap s (snd ka))) (getPriceLevelMap (side (heap s (snd ka))) s) = Some l
             \<and> count_list l (snd ka) = 1) \<and>
        (\<forall>sd. \<forall>lv\<in>set (getPriceLevelMap sd s).
           snd ka \<in> set (snd lv) \<longrightarrow> sd = side (heap s (snd ka)) \<and> fst lv = price (heap s (snd ka))))"

datatype operation =
    AddOrder "addr option"
  | CancelOrder "64 word"
  | ModifyOrder "64 word" real "64 word" "64 word"
  | Clear

fun apply_op :: "sort_implementation \<Rightarrow> OrderBook \<Rightarrow> operation \<Rightarrow> error + OrderBook" where
  "apply_op impl s (AddOrder order) = map_sum id snd (addOrder impl s order)"
| "apply_op impl s (CancelOrder oid) = Inr (snd (cancelOrder s oid))"
| "apply_op impl s (ModifyOrder oid newPrice newQuantity now) =
     map_sum id snd (modifyOrder impl s oid newPrice newQuantity now)"
| "apply_op impl s Clear = Inr (clear s)"

fun run :: "sort_implementation \<Rightarrow> OrderBook \<Rightarrow> operation list \<Rightarrow> error + OrderBook" where
  "run impl s [] = Inr s"
| "run impl s (op # ops) =
     (case apply_op impl s op of Inl e \<Rightarrow> Inl e | Inr s' \<Rightarrow> run impl s' ops)"

definition add_rejected :: "OrderBook \<Rightarrow> addr option \<Rightarrow> bool" where
  "add_rejected s order \<longleftrightarrow>
     (case order of
        None \<Rightarrow> True
      | Some a \<Rightarrow> quantity (heap s a) = 0 \<or> m_find (orderId (heap s a)) (orders s) \<noteq> None)"

definition testCompleteOrderMatching_heap :: "addr \<Rightarrow> Order" where
  "testCompleteOrderMatching_heap =
     (\<lambda>_. default_order)
       (1 := \<lparr>orderId = 1, side = SELL, price = 100.5, quantity = 100, timestamp = 1\<rparr>,
        2 := \<lparr>orderId = 2, side = BUY, price = 100.5, quantity = 100, timestamp = 2\<rparr>)"

definition nonpositive_price_heap :: "addr \<Rightarrow> Order" where
  "nonpositive_price_heap =
     (\<lambda>_. default_order)
       (1 := \<lparr>orderId = 1, side = BUY, price = - 5, quantity = 10, timestamp = 1\<rparr>)"

definition resting_prices :: "OrderBook \<Rightarrow> OrderSide \<Rightarrow> real set" where
  "resting_prices s sd = (\<lambda>a. price (heap s a)) ` addrs (getPriceLevelMap sd s)"

definition positive_price_heap :: "addr \<Rightarrow> Order" where
  "positive_price_heap =
     (\<lambda>_. default_order)
       (1 := \<lparr>orderId = 1, side = BUY, price = 100, quantity = 10, timestamp = 1\<rparr>,
        2 := \<lparr>orderId = 2, side = SELL, price = 101, quantity = 10, timestamp = 2\<rparr>)"

definition withdrawn :: "OrderBook \<Rightarrow> 64 word \<Rightarrow> addr \<Rightarrow> real \<Rightarrow> 64 word \<Rightarrow> 64 word \<Rightarrow> OrderBook" where
  "withdrawn s oid a newPrice newQuantity now =
     (snd (cancelOrder s oid))
       \<lparr>heap := (heap s)(a := (heap s a)\<lparr>price := newPrice, quantity := newQuantity,
                                        timestamp := now\<rparr>)\<rparr>"

definition queue_at :: "OrderBook \<Rightarrow> OrderSide \<Rightarrow> real \<Rightarrow> addr list" where
  "queue_at s sd p = (case m_find p (getPriceLevelMap sd s) of None \<Rightarrow> [] | Some l \<Rightarrow> l)"

definition testPriceTimePriority_heap :: "addr \<Rightarrow> Order" where
  "testPriceTimePriority_heap =
     (\<lambda>_. default_order)
       (1 := \<lparr>orderId = 1, side = BUY, price = 100.5, quantity = 100, timestamp = 1\<rparr>,
        2 := \<lparr>orderId = 2, side = BUY, price = 100.5, quantity = 100, timestamp = 2\<rparr>,
        3 := \<lparr>orderId = 3, side = BUY, price = 100.5, quantity = 100, timestamp = 3\<rparr>,
        4 := \<lparr>orderId = 4, side = SELL, price = 100.5, quantity = 50, timestamp = 4\<rparr>,
        5 := \<lparr>orderId = 5, side = SELL, price = 100.5, quantity = 75, timestamp = 5\<rparr>)"

definition fills :: "(addr \<Rightarrow> Order) \<Rightarrow> addr \<Rightarrow> Trade \<Rightarrow> addr \<Rightarrow> bool" where
  "fills h n t r \<longleftrightarrow>
     (if side (h n) = BUY
      then buyOrderId t = orderId (h n) \<and> sellOrderId t = orderId (h r)
      else buyOrderId t = orderId (h r) \<and> sellOrderId t = orderId (h n)) \<and>
     tradePrice t = double_halve (double_plus (price (h n)) (price (h r)))"

definition priority_queue :: "OrderSide \<Rightarrow> PriceLevelMap \<Rightarrow> addr list" where
  "priority_queue sd oppositeSide =
     concat (map snd (if sd = BUY then oppositeSide else rev oppositeSide))"

definition precedes :: "OrderSide \<Rightarrow> (addr \<Rightarrow> Order) \<Rightarrow> addr \<Rightarrow> addr \<Rightarrow> bool" where
  "precedes sd h a b \<longleftrightarrow>
     (if sd = BUY then price (h a) < price (h b) else price (h b) < price (h a)) \<or>
     (price (h a) = price (h b) \<and> timestamp (h a) \<le> timestamp (h b))"

definition testMultiLevelMatching_heap :: "addr \<Rightarrow> Order" where
  "testMultiLevelMatching_heap =
     (\<lambda>_. default_order)
       (1 := \<lparr>orderId = 1, side = BUY, price = 100.5, quantity = 100, timestamp = 1\<rparr>,
        2 := \<lparr>orderId = 2, side = BUY, price = 100.25, quantity = 150, timestamp = 2\<rparr>,
        3 := \<lparr>orderId = 3, side = BUY, price = 100, quantity = 200, timestamp = 3\<rparr>,
        4 := \<lparr>orderId = 4, side = SELL, price = 101, quantity = 100, timestamp = 4\<rparr>,
        5 := \<lparr>orderId = 5, side = SELL, price = 101.25, quantity = 150, timestamp = 5\<rparr>,
        6 := \<lparr>orderId = 6, side = BUY, price = double_literal 101.3, quantity = 300,
              timestamp = 6\<rparr>)"

definition before_in :: "'a list \<Rightarrow> 'a \<Rightarrow> 'a \<Rightarrow> bool" where
  "before_in xs b a \<longleftrightarrow> a \<in> set (tl (dropWhile (\<lambda>x. x \<noteq> b) xs))"

definition positive_op :: "(addr \<Rightarrow> Order) \<Rightarrow> operation \<Rightarrow> bool" where
  "positive_op h op \<longleftrightarrow>
     (case op of
        AddOrder order \<Rightarrow> (case order of None \<Rightarrow> True | Some a \<Rightarrow> 0 < price (h a))
      | ModifyOrder oid newPrice newQuantity now \<Rightarrow> 0 < newPrice
      | _ \<Rightarrow> True)"

definition priced :: "(addr \<Rightarrow> Order) \<Rightarrow> OrderBook \<Rightarrow> bool" where
  "priced h s \<longleftrightarrow>
     (\<forall>ka\<in>set (orders s). 0 < price (heap s (snd ka))) \<and>
     (\<forall>a. price (heap s a) = price (h a) \<or> 0 < price (heap s a))"

section \<open>Evaluation of the scenarios\<close>

lemmas book_defs =
  empty_book_def addOrder_def cancelOrder_def modifyOrder_def m_find_def m_erase_def
  addOrderToPriceLevel_def removeOrderFromPriceLevel_def getPriceLevelMap_def
  setPriceLevelMap_def matchOrders_def canMatch_def best_level_def erase_best_def
  write_best_def match_step_def executeTrade_def getDepthAtPrice_def getBestBid_def
  getBestAsk_def getSpread_def getOrderCount_def Let_def
  match_level.simps match_loop.simps

section \<open>Lemmas\<close>

subsection \<open>The contract of \<open>std::sort\<close>\<close>

lemma mset_std_sort [simp]: "mset (std_sort impl key xs) = mset xs"
  using std_sort[of impl] by simp

lemma sorted_std_sort [simp]: "sorted (map key (std_sort impl key xs))"
  using std_sort[of impl] by simp

lemma set_std_sort [simp]: "set (std_sort impl key xs) = set xs"
  by (rule mset_eq_setD) simp

lemma length_std_sort [simp]: "length (std_sort impl key xs) = length xs"
  by (rule mset_eq_length) simp

lemma distinct_std_sort [simp]: "distinct (std_sort impl key xs) = distinct xs"
  by (rule mset_eq_imp_distinct_iff) simp

lemma std_sort_Nil [simp]: "std_sort impl key [] = []"
  using mset_std_sort[of impl key "[]"] by (simp del: mset_std_sort)

lemma std_sort_single [simp]: "std_sort impl key [a] = [a]"
  using mset_std_sort[of impl key "[a]"] by (simp del: mset_std_sort add: mset_single_iff)

lemma std_sort_stable_sort [simp]: "std_sort stable_sort = sort_key"
  unfolding stable_sort_def by (rule Abs_sort_implementation_inverse) simp


subsection \<open>Rounding\<close>

lemma round_half_even_floor:
  "\<lfloor>x\<rfloor> \<le> round_half_even x" "round_half_even x \<le> \<lfloor>x\<rfloor> + 1"
  by (simp_all add: round_half_even_def Let_def)

lemma round_half_even_of_int [simp]: "round_half_even (of_int n) = n"
  by (simp add: round_half_even_def)

lemma round_units_shift:
  "2 ^ 52 \<le> y \<Longrightarrow> round_units (y * 2 ^ k) = 2 ^ k * round_units y"
proof (induction k)
  case 0
  show ?case by simp
next
  case (Suc k)
  have "(2::real) ^ 52 * 1 \<le> y * 2 ^ k" using Suc.prems by (intro mult_mono) simp_all
  then have "(2::real) ^ 53 \<le> y * 2 ^ Suc k" by simp
  then have "round_units (y * 2 ^ Suc k) = 2 * round_units (y * 2 ^ Suc k / 2)"
    by (subst round_units.simps) simp
  with Suc show ?case by simp
qed


lemma round_half_even_numeral [simp]: "round_half_even (numeral k) = numeral k"
  using round_half_even_of_int[of "numeral k"] by simp

lemma round_half_even_nonneg: "0 \<le> x \<Longrightarrow> 0 \<le> round_half_even x"
  using round_half_even_floor(1)[of x] by (simp add: order_trans[of 0 "\<lfloor>x\<rfloor>"])

lemma round_half_even_ge: "of_int n \<le> x \<Longrightarrow> n \<le> round_half_even x"
  using round_half_even_floor(1)[of x] by (simp add: le_floor_iff order_trans[of n "\<lfloor>x\<rfloor>"])

lemma round_half_even_le:
  assumes "x \<le> of_int n"
  shows "round_half_even x \<le> n"
proof (cases "x = of_int n")
  case True
  then show ?thesis by simp
next
  case False
  with assms have "x < of_int n" by simp
  then have "\<lfloor>x\<rfloor> < n" by (simp add: floor_less_iff)
  with round_half_even_floor(2)[of x] show ?thesis by simp
qed

lemma round_units_nonneg: "0 \<le> y \<Longrightarrow> 0 \<le> round_units y"
proof (induction y rule: round_units.induct)
  case (1 y)
  show ?case
  proof (cases "2 ^ 53 \<le> y")
    case True
    with 1 show ?thesis by (subst round_units.simps) simp
  next
    case False
    with 1 show ?thesis by (subst round_units.simps) (simp add: round_half_even_nonneg)
  qed
qed

lemma round_units_small: "y < 2 ^ 53 \<Longrightarrow> round_units y = of_int (round_half_even y)"
  by (subst round_units.simps) simp

lemma round_units_big: "2 ^ 53 \<le> y \<Longrightarrow> round_units y = 2 * round_units (y / 2)"
  by (subst round_units.simps) simp

lemma round_units_ge: "2 ^ 53 \<le> y \<Longrightarrow> 2 ^ 53 \<le> round_units y"
proof (induction y rule: round_units.induct)
  case (1 y)
  show ?case
  proof (cases "2 ^ 53 \<le> y / 2")
    case True
    with 1 show ?thesis by (simp add: round_units_big[of y])
  next
    case False
    have "(of_int (2 ^ 52) :: real) \<le> y / 2" using "1.prems" by simp
    then have "2 ^ 52 \<le> round_half_even (y / 2)" by (rule round_half_even_ge)
    then have "(2::real) ^ 52 \<le> of_int (round_half_even (y / 2))"
      by (metis of_int_le_iff of_int_numeral of_int_power)
    with False "1.prems" show ?thesis
      by (simp add: round_units_big[of y] round_units_small[of "y / 2"])
  qed
qed

lemma round_units_idem: "0 \<le> y \<Longrightarrow> round_units (round_units y) = round_units y"
proof (induction y rule: round_units.induct)
  case (1 y)
  show ?case
  proof (cases "2 ^ 53 \<le> y")
    case True
    then have ge: "2 ^ 53 \<le> round_units y" by (rule round_units_ge)
    have e: "round_units y = 2 * round_units (y / 2)" using True by (rule round_units_big)
    have "round_units (round_units y) = 2 * round_units (round_units y / 2)"
      using ge by (rule round_units_big)
    also have "round_units y / 2 = round_units (y / 2)" by (simp add: e)
    also have "round_units (round_units (y / 2)) = round_units (y / 2)"
      using "1.IH"[OF True] "1.prems" by simp
    finally show ?thesis by (simp add: e)
  next
    case False
    then have s: "round_units y = of_int (round_half_even y)" by (simp add: round_units_small)
    have "y \<le> of_int (2 ^ 53)" using False by simp
    then have le: "round_half_even y \<le> 2 ^ 53" by (rule round_half_even_le)
    show ?thesis
    proof (cases "round_half_even y = 2 ^ 53")
      case True
      have "round_units (2 ^ 53) = 2 * round_units (2 ^ 52)"
        using round_units_big[of "2 ^ 53"] by simp
      also have "round_units (2 ^ 52) = 2 ^ 52"
        using round_units_small[of "2 ^ 52"] by simp
      finally have "round_units (2 ^ 53) = 2 ^ 53" by simp
      with True s show ?thesis by simp
    next
      case False
      with le have "round_half_even y < 2 ^ 53" by simp
      then have "(of_int (round_half_even y) :: real) < 2 ^ 53"
        by (metis of_int_less_iff of_int_numeral of_int_power)
      then show ?thesis unfolding s by (simp add: round_units_small)
    qed
  qed
qed


lemma round_units_le: "y \<le> 2 ^ 53 \<Longrightarrow> round_units y \<le> 2 ^ 53"
proof (cases "y = 2 ^ 53")
  case True
  have "round_units (2 ^ 53) = 2 * round_units (2 ^ 52)"
    using round_units_big[of "2 ^ 53"] by simp
  also have "round_units (2 ^ 52) = 2 ^ 52"
    using round_units_small[of "2 ^ 52"] by simp
  finally show ?thesis using True by simp
next
  case False
  assume "y \<le> 2 ^ 53"
  with False have lt: "y < 2 ^ 53" by simp
  then have "y \<le> of_int (2 ^ 53)" by simp
  then have "round_half_even y \<le> 2 ^ 53" by (rule round_half_even_le)
  then have "(of_int (round_half_even y) :: real) \<le> 2 ^ 53"
    by (metis of_int_le_iff of_int_numeral of_int_power)
  with lt show ?thesis by (simp add: round_units_small)
qed

text \<open>Evaluation of a rounding whose binade is given: \<open>2^52 \<le> |x| * 2^j < 2^53\<close>.\<close>

lemma round_double_normal:
  assumes lo: "2 ^ 52 \<le> \<bar>x\<bar> * 2 ^ j" and hi: "\<bar>x\<bar> * 2 ^ j < 2 ^ 53" and j: "j \<le> 1074"
  shows "round_double x = Finite (sgn x * of_int (round_half_even (\<bar>x\<bar> * 2 ^ j)) / 2 ^ j)"
proof -
  let ?y = "\<bar>x\<bar> * 2 ^ j"
  define k where "k = least_exponent - j"
  have jk: "least_exponent = j + k" using j by (simp add: k_def least_exponent_def)
  have e: "\<bar>x\<bar> * 2 ^ least_exponent = ?y * 2 ^ k" by (simp add: jk power_add)
  have r: "round_units (\<bar>x\<bar> * 2 ^ least_exponent) = 2 ^ k * of_int (round_half_even ?y)"
    unfolding e round_units_shift[OF lo, of k] round_units_small[OF hi] ..
  have "round_units ?y \<le> 2 ^ 53" using hi by (intro round_units_le) simp
  then have le: "(of_int (round_half_even ?y) :: real) \<le> 2 ^ 53"
    by (simp add: round_units_small[OF hi])
  have "2 ^ k * (of_int (round_half_even ?y) :: real) \<le> 2 ^ k * 2 ^ 53"
    using le by (intro mult_left_mono) simp_all
  also have "\<dots> = 2 ^ (k + 53)" by (simp add: power_add)
  also have "\<dots> < (2::real) ^ (least_exponent + 1024)"
    by (intro power_strict_increasing) (simp_all add: jk)
  finally have nov: "\<not> 2 ^ (least_exponent + 1024) \<le> round_units (\<bar>x\<bar> * 2 ^ least_exponent)"
    by (simp only: r not_le)
  have "sgn x * (2 ^ k * of_int (round_half_even ?y)) / 2 ^ least_exponent
          = sgn x * of_int (round_half_even ?y) / 2 ^ j"
    by (simp add: jk power_add)
  with nov show ?thesis by (simp only: round_double_def Let_def r if_False)
qed

text \<open>Evaluation of the arithmetic on prices between \<open>2^-4\<close> and \<open>2^8\<close>.\<close>

lemmas double_defs =
  double_plus_def double_minus_def double_halve_def double_literal_def round_half_even_def
  round_double_normal[of _ 45] round_double_normal[of _ 46] round_double_normal[of _ 52]
  round_double_normal[of _ 53] round_double_normal[of _ 54] round_double_normal[of _ 55]
  round_double_normal[of _ 56]

lemma round_double_nonneg: "0 < x \<Longrightarrow> double_nonneg (round_double x)"
  using round_units_nonneg[of "\<bar>x\<bar> * 2 ^ least_exponent"]
  by (simp add: round_double_def Let_def double_nonneg_def)

subsection \<open>The map library\<close>

lemma keys_ok_Nil [simp]: "keys_ok []"
  by (simp add: keys_ok_def)

lemma keys_ok_Cons:
  "keys_ok (x # m) \<longleftrightarrow> (\<forall>y\<in>set m. fst x < fst y) \<and> keys_ok m"
  by (auto simp: keys_ok_def less_le)

lemma keys_ok_snoc:
  "keys_ok (m @ [x]) \<longleftrightarrow> (\<forall>y\<in>set m. fst y < fst x) \<and> keys_ok m"
  by (auto simp: keys_ok_def sorted_append less_le) (metis fst_conv image_eqI)

lemma keys_ok_unique:
  "keys_ok m \<Longrightarrow> (k, v) \<in> set m \<Longrightarrow> (k, v') \<in> set m \<Longrightarrow> v = v'"
  by (auto simp: keys_ok_def dest: eq_key_imp_eq_value)

lemma m_find_Some_iff:
  "keys_ok m \<Longrightarrow> m_find k m = Some v \<longleftrightarrow> (k, v) \<in> set m"
  by (simp add: keys_ok_def m_find_def)

lemma m_find_None_iff: "m_find k m = None \<longleftrightarrow> k \<notin> fst ` set m"
  by (simp add: m_find_def map_of_eq_None_iff)

lemma set_m_erase: "set (m_erase k m) = {kv \<in> set m. fst kv \<noteq> k}"
  by (auto simp: m_erase_def)

lemma keys_ok_m_erase: "keys_ok m \<Longrightarrow> keys_ok (m_erase k m)"
  by (simp add: keys_ok_def m_erase_def sorted_filter distinct_map_filter)

lemma set_m_put:
  "keys_ok m \<Longrightarrow> set (m_put k v m) = insert (k, v) {kv \<in> set m. fst kv \<noteq> k}"
proof (induction m)
  case Nil
  show ?case by simp
next
  case (Cons x m)
  obtain k' v' where x: "x = (k', v')" by (cases x)
  from Cons.prems have lt: "\<forall>y\<in>set m. k' < fst y" and ok: "keys_ok m"
    by (simp_all add: keys_ok_Cons x)
  show ?case
  proof (cases "k < k'")
    case True
    with lt have "\<forall>y\<in>set m. fst y \<noteq> k" by auto
    with True show ?thesis by (auto simp: x)
  next
    case False
    show ?thesis
    proof (cases "k = k'")
      case True
      with lt have "\<forall>y\<in>set m. fst y \<noteq> k" by auto
      with True show ?thesis by (auto simp: x)
    next
      case ne: False
      with False Cons.IH[OF ok] show ?thesis by (auto simp: x)
    qed
  qed
qed

lemma keys_ok_m_put: "keys_ok m \<Longrightarrow> keys_ok (m_put k v m)"
proof (induction m)
  case Nil
  then show ?case by (simp add: keys_ok_Cons)
next
  case (Cons x m)
  then have "keys_ok m" by (simp add: keys_ok_Cons)
  with Cons show ?case
    by (cases x) (auto simp: keys_ok_Cons set_m_put)
qed

lemma best_level_in: "m \<noteq> [] \<Longrightarrow> best_level sd m \<in> set m"
  by (simp add: best_level_def)

lemma best_level_BUY_least:
  "keys_ok m \<Longrightarrow> kv \<in> set m \<Longrightarrow> fst (best_level BUY m) \<le> fst kv"
  by (cases m) (auto simp: best_level_def keys_ok_Cons)

lemma best_level_SELL_greatest:
  "keys_ok m \<Longrightarrow> kv \<in> set m \<Longrightarrow> fst kv \<le> fst (best_level SELL m)"
  by (cases m rule: rev_cases) (auto simp: best_level_def keys_ok_snoc)

lemma set_erase_best:
  "keys_ok m \<Longrightarrow> m \<noteq> [] \<Longrightarrow> set (erase_best sd m) = set m - {best_level sd m}"
proof (cases "sd = BUY")
  case True
  assume "keys_ok m" "m \<noteq> []"
  then show ?thesis using True
    by (cases m) (auto simp: erase_best_def best_level_def keys_ok_Cons)
next
  case False
  assume "keys_ok m" "m \<noteq> []"
  then show ?thesis using False
    by (cases m rule: rev_cases) (auto simp: erase_best_def best_level_def keys_ok_snoc)
qed

lemma keys_ok_erase_best: "keys_ok m \<Longrightarrow> keys_ok (erase_best sd m)"
proof (cases "sd = BUY")
  case True
  assume "keys_ok m"
  then show ?thesis using True by (cases m) (auto simp: erase_best_def keys_ok_Cons)
next
  case False
  assume "keys_ok m"
  then show ?thesis using False
    by (cases m rule: rev_cases) (auto simp: erase_best_def keys_ok_snoc)
qed

lemma set_write_best:
  "keys_ok m \<Longrightarrow> m \<noteq> [] \<Longrightarrow>
   set (write_best sd x m) = insert x (set m - {best_level sd m})"
proof (cases "sd = BUY")
  case True
  assume "keys_ok m" "m \<noteq> []"
  then show ?thesis using True
    by (cases m) (auto simp: write_best_def best_level_def keys_ok_Cons)
next
  case False
  assume "keys_ok m" "m \<noteq> []"
  then show ?thesis using False
    by (cases m rule: rev_cases) (auto simp: write_best_def best_level_def keys_ok_snoc)
qed

lemma keys_ok_write_best:
  "keys_ok m \<Longrightarrow> m \<noteq> [] \<Longrightarrow> fst x = fst (best_level sd m) \<Longrightarrow> keys_ok (write_best sd x m)"
proof (cases "sd = BUY")
  case True
  assume "keys_ok m" "m \<noteq> []" "fst x = fst (best_level sd m)"
  then show ?thesis using True
    by (cases m) (auto simp: write_best_def best_level_def keys_ok_Cons)
next
  case False
  assume "keys_ok m" "m \<noteq> []" "fst x = fst (best_level sd m)"
  then show ?thesis using False
    by (cases m rule: rev_cases) (auto simp: write_best_def best_level_def keys_ok_snoc)
qed

lemma set_get_PriceLevelMap [simp]: "setPriceLevelMap sd (getPriceLevelMap sd s) s = s"
  by (simp add: setPriceLevelMap_def getPriceLevelMap_def)

lemma removeOrderFromPriceLevel_alt:
  "removeOrderFromPriceLevel s a =
     setPriceLevelMap (side (heap s a))
       (map_remove (price (heap s a)) a (getPriceLevelMap (side (heap s a)) s)) s"
  by (simp add: removeOrderFromPriceLevel_def map_remove_def Let_def split: option.splits)

lemma addOrderToPriceLevel_alt:
  "addOrderToPriceLevel impl s a =
     setPriceLevelMap (side (heap s a))
       (map_add impl (heap s) (price (heap s a)) a (getPriceLevelMap (side (heap s a)) s)) s"
  by (simp add: addOrderToPriceLevel_def map_add_def Let_def)

lemma addrs_Nil [simp]: "addrs [] = {}"
  by (simp add: addrs_def)

lemma side_ok_Nil [simp]: "side_ok h sd []"
  by (simp add: side_ok_def)

lemma side_ok_member:
  "side_ok h sd m \<Longrightarrow> (q, l) \<in> set m \<Longrightarrow> a \<in> set l \<Longrightarrow> price (h a) = q \<and> side (h a) = sd"
  by (fastforce simp: side_ok_def level_ok_def)

lemma addrs_iff: "a \<in> addrs m \<longleftrightarrow> (\<exists>q l. (q, l) \<in> set m \<and> a \<in> set l)"
  by (force simp: addrs_def)

lemma side_ok_addrs:
  assumes "side_ok h sd m" "a \<in> addrs m"
  shows "side (h a) = sd" and "\<exists>l. (price (h a), l) \<in> set m \<and> a \<in> set l"
  using assms side_ok_member[OF assms(1)] by (auto simp: addrs_iff)

lemma keys_ok_filter_neq:
  "keys_ok m \<Longrightarrow> (p, l) \<in> set m \<Longrightarrow> {kv \<in> set m. fst kv \<noteq> p} = set m - {(p, l)}"
  by (auto dest: keys_ok_unique)

lemma addrs_split:
  "(p, l) \<in> set m \<Longrightarrow> addrs m = set l \<union> (\<Union>lv\<in>set m - {(p, l)}. set (snd lv))"
  by (auto simp: addrs_def)

lemma side_ok_not_elsewhere:
  assumes "side_ok h sd m" "(p, l) \<in> set m" "price (h a) = p"
  shows "a \<notin> (\<Union>lv\<in>set m - {(p, l)}. set (snd lv))"
proof
  assume "a \<in> (\<Union>lv\<in>set m - {(p, l)}. set (snd lv))"
  then obtain lv where lv: "lv \<in> set m" "lv \<noteq> (p, l)" "a \<in> set (snd lv)" by auto
  obtain q l' where "lv = (q, l')" by (cases lv)
  with lv have in': "(q, l') \<in> set m" "(q, l') \<noteq> (p, l)" "a \<in> set l'" by simp_all
  from side_ok_member[OF assms(1) in'(1,3)] assms(3) have "q = p" by simp
  with in' assms(1,2) show False by (auto simp: side_ok_def dest: keys_ok_unique)
qed

lemma map_remove_ok:
  assumes ok: "side_ok h sd m" and p: "price (h a) = p"
  shows "side_ok h sd (map_remove p a m)"
    and "addrs (map_remove p a m) = addrs m - {a}"
    and "fst ` set (map_remove p a m) \<subseteq> fst ` set m"
proof -
  from ok have kok: "keys_ok m" by (simp add: side_ok_def)
  have "side_ok h sd (map_remove p a m) \<and> addrs (map_remove p a m) = addrs m - {a}
        \<and> fst ` set (map_remove p a m) \<subseteq> fst ` set m"
  proof (cases "m_find p m")
    case None
    then have "p \<notin> fst ` set m" by (simp add: m_find_None_iff)
    then have "a \<notin> addrs m"
      using side_ok_addrs(2)[OF ok, of a] p by force
    with None ok show ?thesis by (simp add: map_remove_def)
  next
    case (Some l)
    then have inl: "(p, l) \<in> set m" using kok by (simp add: m_find_Some_iff)
    let ?R = "\<Union>lv\<in>set m - {(p, l)}. set (snd lv)"
    have notR: "a \<notin> ?R" by (rule side_ok_not_elsewhere[OF ok inl p])
    have split: "addrs m = set l \<union> ?R" by (rule addrs_split[OF inl])
    from ok inl have lok: "level_ok h sd (p, l)" by (auto simp: side_ok_def)
    show ?thesis
    proof (cases "a \<in> set l")
      case False
      with notR split have "a \<notin> addrs m" by simp
      with Some False ok show ?thesis by (simp add: map_remove_def)
    next
      case True
      from lok have dl: "distinct l" by (simp add: level_ok_def)
      then have setr: "set (remove1 a l) = set l - {a}" by simp
      show ?thesis
      proof (cases "remove1 a l = []")
        case e: True
        then have m': "map_remove p a m = m_erase p m"
          using Some True by (simp add: map_remove_def)
        have set': "set (m_erase p m) = set m - {(p, l)}"
          by (simp add: set_m_erase keys_ok_filter_neq[OF kok inl])
        from e setr True have "set l = {a}" by auto
        with split notR have "addrs m - {a} = ?R" by auto
        moreover have "addrs (m_erase p m) = ?R" by (simp add: addrs_def set')
        moreover have "side_ok h sd (m_erase p m)"
          using ok by (auto simp: side_ok_def keys_ok_m_erase set')
        moreover have "fst ` set (m_erase p m) \<subseteq> fst ` set m" by (auto simp: set')
        ultimately show ?thesis by (simp add: m')
      next
        case ne: False
        then have m': "map_remove p a m = m_put p (remove1 a l) m"
          using Some True by (simp add: map_remove_def)
        have set': "set (m_put p (remove1 a l) m) = insert (p, remove1 a l) (set m - {(p, l)})"
          by (simp add: set_m_put[OF kok] keys_ok_filter_neq[OF kok inl])
        have "addrs (m_put p (remove1 a l) m) = (set l - {a}) \<union> ?R"
          by (simp add: addrs_def set' setr)
        with split notR have a: "addrs (m_put p (remove1 a l) m) = addrs m - {a}" by auto
        have "level_ok h sd (p, remove1 a l)"
          using lok ne by (auto simp: level_ok_def sorted_map_remove1 dest: notin_set_remove1)
        then have b: "side_ok h sd (m_put p (remove1 a l) m)"
          using ok by (auto simp: side_ok_def keys_ok_m_put set')
        have c: "fst ` set (m_put p (remove1 a l) m) \<subseteq> fst ` set m"
          using inl by (force simp: set')
        from a b c show ?thesis by (simp add: m')
      qed
    qed
  qed
  then show "side_ok h sd (map_remove p a m)"
    and "addrs (map_remove p a m) = addrs m - {a}"
    and "fst ` set (map_remove p a m) \<subseteq> fst ` set m" by simp_all
qed

lemma map_add_ok:
  assumes ok: "side_ok h sd m" and p: "price (h a) = p" and sd: "side (h a) = sd"
    and fresh: "a \<notin> addrs m"
  shows "side_ok h sd (map_add impl h p a m)"
    and "addrs (map_add impl h p a m) = insert a (addrs m)"
    and "fst ` set (map_add impl h p a m) = insert p (fst ` set m)"
proof -
  from ok have kok: "keys_ok m" by (simp add: side_ok_def)
  let ?old = "case m_find p m of None \<Rightarrow> [] | Some l \<Rightarrow> l"
  let ?l = "std_sort impl (\<lambda>b. timestamp (h b)) (?old @ [a])"
  have set': "set (map_add impl h p a m) = insert (p, ?l) {kv \<in> set m. fst kv \<noteq> p}"
    by (simp add: map_add_def set_m_put[OF kok])
  have l0: "distinct ?old \<and> a \<notin> set ?old \<and> (\<forall>b\<in>set ?old. side (h b) = sd \<and> price (h b) = p)
            \<and> addrs m = set ?old \<union> (\<Union>lv\<in>{kv \<in> set m. fst kv \<noteq> p}. set (snd lv))"
  proof (cases "m_find p m")
    case None
    then have "p \<notin> fst ` set m" by (simp add: m_find_None_iff)
    then have eq: "{kv \<in> set m. fst kv \<noteq> p} = set m" by force
    have "addrs m = (\<Union>lv\<in>{kv \<in> set m. fst kv \<noteq> p}. set (snd lv))"
      unfolding eq addrs_def ..
    then show ?thesis by (simp add: None)
  next
    case (Some l)
    then have inl: "(p, l) \<in> set m" using kok by (simp add: m_find_Some_iff)
    from ok inl have "level_ok h sd (p, l)" by (auto simp: side_ok_def)
    moreover from inl fresh have "a \<notin> set l" by (auto simp: addrs_iff)
    ultimately show ?thesis
      using Some addrs_split[OF inl] keys_ok_filter_neq[OF kok inl]
      by (simp add: level_ok_def)
  qed
  from l0 have d: "distinct ?old" and f: "a \<notin> set ?old"
    and g: "\<forall>b\<in>set ?old. side (h b) = sd \<and> price (h b) = p"
    and sp: "addrs m = set ?old \<union> (\<Union>lv\<in>{kv \<in> set m. fst kv \<noteq> p}. set (snd lv))"
    by blast+
  have setl: "set ?l = insert a (set ?old)" by simp
  then have ne: "?l \<noteq> []" by (metis empty_set insert_not_empty)
  have "distinct ?l" using d f by simp
  moreover have "sorted (map (\<lambda>b. timestamp (h b)) ?l)" by simp
  ultimately have lok: "level_ok h sd (p, ?l)"
    using ne g p sd unfolding level_ok_def setl by simp
  have "keys_ok (map_add impl h p a m)" by (simp add: map_add_def keys_ok_m_put kok)
  moreover have "\<forall>lv\<in>set (map_add impl h p a m). level_ok h sd lv"
    using ok lok unfolding set' side_ok_def by blast
  ultimately have a: "side_ok h sd (map_add impl h p a m)" by (simp add: side_ok_def)
  have "addrs (map_add impl h p a m) = insert a (set ?old) \<union> (\<Union>lv\<in>{kv \<in> set m. fst kv \<noteq> p}. set (snd lv))"
    unfolding addrs_def set' using setl by simp
  with sp have b: "addrs (map_add impl h p a m) = insert a (addrs m)" by simp
  have c: "fst ` set (map_add impl h p a m) = insert p (fst ` set m)"
    by (force simp: set')
  from a b c show "side_ok h sd (map_add impl h p a m)"
    and "addrs (map_add impl h p a m) = insert a (addrs m)"
    and "fst ` set (map_add impl h p a m) = insert p (fst ` set m)" by simp_all
qed

lemma same_static_refl [simp]: "same_static h h"
  by (simp add: same_static_def)

lemma same_static_trans: "same_static h h1 \<Longrightarrow> same_static h1 h2 \<Longrightarrow> same_static h h2"
  by (simp add: same_static_def)

lemma same_static_fields:
  assumes "same_static h h'"
  shows "orderId (h' a) = orderId (h a)" "side (h' a) = side (h a)"
    "price (h' a) = price (h a)" "timestamp (h' a) = timestamp (h a)"
  using assms by (simp_all add: same_static_def)

lemma level_ok_static: "same_static h h' \<Longrightarrow> level_ok h' sd lv = level_ok h sd lv"
proof -
  assume st: "same_static h h'"
  then have "(\<lambda>a. timestamp (h' a)) = (\<lambda>a. timestamp (h a))"
    by (simp add: same_static_def)
  with st show ?thesis by (simp add: level_ok_def same_static_def)
qed

lemma side_ok_static: "same_static h h' \<Longrightarrow> side_ok h' sd m = side_ok h sd m"
  by (simp add: side_ok_def level_ok_static)

lemma index_ok_static: "same_static h h' \<Longrightarrow> index_ok h' idx = index_ok h idx"
  by (simp add: index_ok_def same_static_def)

lemma match_step_ok:
  assumes "side (h opp) \<noteq> side (h n)"
  shows "\<exists>t h'. match_step n opp h = Inr (t, h')"
proof (cases "side (h n)")
  case BUY
  with assms have "side (h opp) = SELL" by (cases "side (h opp)") auto
  with BUY show ?thesis by (simp add: match_step_def executeTrade_def Let_def)
next
  case SELL
  with assms have "side (h opp) = BUY" by (cases "side (h opp)") auto
  with SELL show ?thesis by (simp add: match_step_def executeTrade_def Let_def)
qed

lemma match_step_heap:
  assumes "match_step n opp h = Inr (t, h')"
  shows "opp \<noteq> n"
    and "h' = (h(n := (h n)\<lparr>quantity := quantity (h n) - min (quantity (h n)) (quantity (h opp))\<rparr>))
               (opp := (h opp)\<lparr>quantity := quantity (h opp) - min (quantity (h n)) (quantity (h opp))\<rparr>)"
proof -
  show ne: "opp \<noteq> n"
    using assms by (auto simp: match_step_def executeTrade_def Let_def split: if_splits)
  show "h' = (h(n := (h n)\<lparr>quantity := quantity (h n) - min (quantity (h n)) (quantity (h opp))\<rparr>))
               (opp := (h opp)\<lparr>quantity := quantity (h opp) - min (quantity (h n)) (quantity (h opp))\<rparr>)"
    using assms ne by (auto simp: match_step_def executeTrade_def Let_def split: if_splits)
qed

lemma match_step_static:
  assumes "match_step n opp h = Inr (t, h')"
  shows "same_static h h'" and "\<And>a. a \<noteq> n \<Longrightarrow> a \<noteq> opp \<Longrightarrow> h' a = h a"
  using match_step_heap[OF assms] by (simp_all add: same_static_def)

lemma match_level_stop:
  "l = [] \<or> quantity (h n) = 0 \<Longrightarrow> match_level n h idx l tr = Inr (h, idx, l, tr)"
  by (subst match_level.simps) auto

lemma level_postI:
  assumes "l = r @ l'" "idx' = filter (\<lambda>kv. fst kv \<notin> orderId ` h ` set r) idx"
    "same_static h h'" "\<forall>a. a \<noteq> n \<longrightarrow> a \<notin> set l \<longrightarrow> h' a = h a"
    "\<forall>a\<in>set l'. quantity (h a) \<noteq> 0 \<longrightarrow> quantity (h' a) \<noteq> 0"
    "l' = [] \<or> quantity (h' n) = 0"
  shows "level_post n h idx l (h', idx', l', tr')"
  unfolding level_post_def prod.case using assms by blast

lemma level_postD:
  assumes "level_post n h idx l (h', idx', l', tr')"
  obtains r where "l = r @ l'" "idx' = filter (\<lambda>kv. fst kv \<notin> orderId ` h ` set r) idx"
    "same_static h h'" "\<forall>a. a \<noteq> n \<longrightarrow> a \<notin> set l \<longrightarrow> h' a = h a"
    "\<forall>a\<in>set l'. quantity (h a) \<noteq> 0 \<longrightarrow> quantity (h' a) \<noteq> 0"
    "l' = [] \<or> quantity (h' n) = 0"
  using assms unfolding level_post_def prod.case by blast

lemma match_level_spec:
  assumes "\<forall>a\<in>set l. side (h a) \<noteq> side (h n)" "distinct l"
  shows "\<exists>res. match_level n h idx l tr = Inr res \<and> level_post n h idx l res"
  using assms
proof (induction n h idx l tr rule: match_level.induct)
  case (1 n h idx l tr)
  show ?case
  proof (cases "l \<noteq> [] \<and> quantity (h n) \<noteq> 0")
    case False
    then have "match_level n h idx l tr = Inr (h, idx, l, tr)" by (intro match_level_stop) auto
    moreover have "level_post n h idx l (h, idx, l, tr)"
      by (rule level_postI[where r = "[]"]) (use False in auto)
    ultimately show ?thesis by simp
  next
    case True
    then obtain x xs where l: "l = x # xs" by (cases l) auto
    from "1.prems" l have sx: "side (h x) \<noteq> side (h n)" and dx: "x \<notin> set xs" "distinct xs"
      by auto
    from match_step_ok[OF sx] obtain t h1 where st: "match_step n x h = Inr (t, h1)" by blast
    have st': "match_step n (hd l) h = Inr (t, h1)" using st l by simp
    note stat = match_step_static[OF st]
    from match_step_heap(1)[OF st] have xn: "x \<noteq> n" .
    show ?thesis
    proof (cases "quantity (h1 x) = 0")
      case z: True
      then have z': "quantity (h1 (hd l)) = 0" using l by simp
      have unfold: "match_level n h idx l tr =
                    match_level n h1 (m_erase (orderId (h1 x)) idx) xs (tr @ [t])"
        using True st z l by (subst match_level.simps) simp
      have pre: "\<forall>a\<in>set (tl l). side (h1 a) \<noteq> side (h1 n)" "distinct (tl l)"
        using "1.prems" l same_static_fields(2)[OF stat(1)] by auto
      from "1.IH"(1)[OF True st' refl z' pre] l
      obtain res where
        res: "match_level n h1 (m_erase (orderId (h1 x)) idx) xs (tr @ [t]) = Inr res"
        and post: "level_post n h1 (m_erase (orderId (h1 x)) idx) xs res"
        by auto
      obtain h' idx' l' tr' where res_eq: "res = (h', idx', l', tr')" by (cases res)
      from post[unfolded res_eq] obtain r where
        r: "xs = r @ l'"
        and idx': "idx' = filter (\<lambda>kv. fst kv \<notin> orderId ` h1 ` set r) (m_erase (orderId (h1 x)) idx)"
        and s1: "same_static h1 h'"
        and fr: "\<forall>a. a \<noteq> n \<longrightarrow> a \<notin> set xs \<longrightarrow> h' a = h1 a"
        and nz: "\<forall>a\<in>set l'. quantity (h1 a) \<noteq> 0 \<longrightarrow> quantity (h' a) \<noteq> 0"
        and ex: "l' = [] \<or> quantity (h' n) = 0"
        by (rule level_postD)
      have id1: "\<And>a. orderId (h1 a) = orderId (h a)"
        using same_static_fields(1)[OF stat(1)] by simp
      have a: "l = (x # r) @ l'" using l r by simp
      have b: "idx' = filter (\<lambda>kv. fst kv \<notin> orderId ` h ` set (x # r)) idx"
        unfolding idx' m_erase_def filter_filter image_image id1
        by (rule filter_cong) auto
      have c: "same_static h h'" by (rule same_static_trans[OF stat(1) s1])
      have d: "\<forall>a. a \<noteq> n \<longrightarrow> a \<notin> set l \<longrightarrow> h' a = h a"
      proof (intro allI impI)
        fix a assume "a \<noteq> n" "a \<notin> set l"
        then show "h' a = h a" using fr stat(2)[of a] l by simp
      qed
      have e: "\<forall>a\<in>set l'. quantity (h a) \<noteq> 0 \<longrightarrow> quantity (h' a) \<noteq> 0"
      proof
        fix a assume al: "a \<in> set l'"
        with r dx have "a \<noteq> x" by auto
        moreover from al r "1.prems"(1) l have "a \<noteq> n" by auto
        ultimately have "h1 a = h a" by (simp add: stat(2))
        with nz al show "quantity (h a) \<noteq> 0 \<longrightarrow> quantity (h' a) \<noteq> 0" by auto
      qed
      have "level_post n h idx l (h', idx', l', tr')"
        by (rule level_postI[OF a b c d e ex])
      with unfold res res_eq show ?thesis by simp
    next
      case nz: False
      from match_step_progress(2)[OF st] nz have qn: "quantity (h1 n) = 0" by simp
      have "match_level n h idx l tr = match_level n h1 idx l (tr @ [t])"
        using True st nz l by (subst match_level.simps) simp
      also have "\<dots> = Inr (h1, idx, l, tr @ [t])" using qn by (intro match_level_stop) simp
      finally have res: "match_level n h idx l tr = Inr (h1, idx, l, tr @ [t])" .
      have d: "\<forall>a. a \<noteq> n \<longrightarrow> a \<notin> set l \<longrightarrow> h1 a = h a"
      proof (intro allI impI)
        fix a assume "a \<noteq> n" "a \<notin> set l"
        then show "h1 a = h a" using stat(2)[of a] l by simp
      qed
      have e: "\<forall>a\<in>set l. quantity (h a) \<noteq> 0 \<longrightarrow> quantity (h1 a) \<noteq> 0"
      proof
        fix a assume al: "a \<in> set l"
        show "quantity (h a) \<noteq> 0 \<longrightarrow> quantity (h1 a) \<noteq> 0"
        proof (cases "a = x")
          case True
          with nz show ?thesis by simp
        next
          case False
          moreover from al "1.prems"(1) have "a \<noteq> n" by auto
          ultimately show ?thesis by (simp add: stat(2))
        qed
      qed
      have "level_post n h idx l (h1, idx, l, tr @ [t])"
        by (rule level_postI[where r = "[]"]) (use stat(1) d e qn in simp_all)
      with res show ?thesis by simp
    qed
  qed
qed

lemma other_side_neq [simp]: "other_side sd \<noteq> sd" "sd \<noteq> other_side sd"
  by (cases sd; simp add: other_side_def)+

lemma keys_ok_filter: "keys_ok m \<Longrightarrow> keys_ok (filter P m)"
  by (simp add: keys_ok_def sorted_filter distinct_map_filter)

lemma level_ok_suffix:
  assumes "level_ok h sd (p, r @ l)" "l \<noteq> []"
  shows "level_ok h sd (p, l)"
  using assms by (auto simp: level_ok_def sorted_append)

lemma index_filter_addrs:
  assumes I: "index_ok h idx" and sub: "R \<subseteq> snd ` set idx"
  shows "snd ` set (filter (\<lambda>kv. fst kv \<notin> orderId ` h ` R) idx) = snd ` set idx - R"
proof -
  have key: "fst kv \<in> orderId ` h ` R \<longleftrightarrow> snd kv \<in> R" if kv: "kv \<in> set idx" for kv
  proof
    assume "snd kv \<in> R"
    moreover from I kv have "orderId (h (snd kv)) = fst kv" by (simp add: index_ok_def)
    ultimately show "fst kv \<in> orderId ` h ` R" by force
  next
    assume "fst kv \<in> orderId ` h ` R"
    then obtain x where x: "x \<in> R" "fst kv = orderId (h x)" by auto
    with sub obtain k' where k': "(k', x) \<in> set idx" by force
    with I have "k' = orderId (h x)" by (force simp: index_ok_def)
    with k' x have "(fst kv, x) \<in> set idx" by simp
    moreover from kv have "(fst kv, snd kv) \<in> set idx" by simp
    moreover from I have "keys_ok idx" by (simp add: index_ok_def)
    ultimately have "x = snd kv" by (rule keys_ok_unique[rotated])
    with x show "snd kv \<in> R" by simp
  qed
  have "set (filter (\<lambda>kv. fst kv \<notin> orderId ` h ` R) idx) = {kv \<in> set idx. snd kv \<notin> R}"
    using key by auto
  then show ?thesis by force
qed

lemma mid_inv_step:
  assumes inv: "mid_inv n h idx own opp"
    and lv: "(p, lv) \<in> set opp"
    and post: "level_post n h idx lv (h1, idx1, l1, tr1)"
    and k1: "keys_ok opp1"
    and set1: "set opp1 = (set opp - {(p, lv)}) \<union> (if l1 = [] then {} else {(p, l1)})"
  shows "mid_inv n h1 idx1 own opp1"
proof -
  let ?sd = "side (h n)"
  let ?osd = "other_side (side (h n))"
  from inv have I: "index_ok h idx" and O: "side_ok h ?sd own" and P: "side_ok h ?osd opp"
    and C: "snd ` set idx = addrs own \<union> addrs opp"
    and Q: "\<forall>ka\<in>set idx. snd ka \<noteq> n \<longrightarrow> quantity (h (snd ka)) \<noteq> 0"
    and X: "crossfree ?sd n own opp"
    by (simp_all add: mid_inv_def)
  from post obtain r where r: "lv = r @ l1"
    and idx1: "idx1 = filter (\<lambda>kv. fst kv \<notin> orderId ` h ` set r) idx"
    and st: "same_static h h1"
    and fr: "\<forall>a. a \<noteq> n \<longrightarrow> a \<notin> set lv \<longrightarrow> h1 a = h a"
    and nz: "\<forall>a\<in>set l1. quantity (h a) \<noteq> 0 \<longrightarrow> quantity (h1 a) \<noteq> 0"
    by (rule level_postD)
  have sd1: "side (h1 n) = ?sd" by (rule same_static_fields(2)[OF st])
  from P lv have lok: "level_ok h ?osd (p, lv)" by (auto simp: side_ok_def)
  from P have kopp: "keys_ok opp" by (simp add: side_ok_def)
  let ?R = "\<Union>x\<in>set opp - {(p, lv)}. set (snd x)"
  have split: "addrs opp = set lv \<union> ?R" by (rule addrs_split[OF lv])
  have disj: "set lv \<inter> ?R = {}"
  proof -
    have "a \<notin> ?R" if "a \<in> set lv" for a
    proof -
      from lok that have "price (h a) = p" by (simp add: level_ok_def)
      from side_ok_not_elsewhere[OF P lv this] show ?thesis .
    qed
    then show ?thesis by blast
  qed
  from lok r have dr: "set r \<inter> set l1 = {}" by (auto simp: level_ok_def)
  have rsub: "set r \<subseteq> snd ` set idx" using C split r by auto
  have E2: "snd ` set idx1 = snd ` set idx - set r"
    unfolding idx1 by (rule index_filter_addrs[OF I rsub])
  have "addrs opp1 = set l1 \<union> ?R"
    unfolding addrs_def set1 by (cases "l1 = []") auto
  with split disj dr r have E3: "addrs opp1 = addrs opp - set r" by auto
  have E4: "addrs own \<inter> set r = {}"
  proof -
    have "a \<notin> set r" if "a \<in> addrs own" for a
    proof
      assume "a \<in> set r"
      with lok r have "side (h a) = ?osd" by (simp add: level_ok_def)
      moreover from side_ok_addrs(1)[OF O that] have "side (h a) = ?sd" .
      ultimately show False by simp
    qed
    then show ?thesis by blast
  qed
  have 1: "index_ok h1 idx1"
    unfolding index_ok_static[OF st] idx1 using I by (auto simp: index_ok_def keys_ok_filter)
  have 2: "side_ok h1 (side (h1 n)) own"
    unfolding sd1 side_ok_static[OF st] by (rule O)
  have "side_ok h ?osd opp1"
    unfolding side_ok_def
  proof (intro conjI ballI)
    show "keys_ok opp1" by (rule k1)
  next
    fix x assume "x \<in> set opp1"
    then consider "x \<in> set opp" | "l1 \<noteq> []" "x = (p, l1)"
      unfolding set1 by (auto split: if_splits)
    then show "level_ok h ?osd x"
    proof cases
      case 1
      with P show ?thesis by (simp add: side_ok_def)
    next
      case 2
      with lok r show ?thesis by (auto intro: level_ok_suffix)
    qed
  qed
  then have 3: "side_ok h1 (other_side (side (h1 n))) opp1"
    by (simp add: sd1 side_ok_static[OF st])
  have 4: "snd ` set idx1 = addrs own \<union> addrs opp1"
    unfolding E2 E3 C using E4 by auto
  have 5: "\<forall>ka\<in>set idx1. snd ka \<noteq> n \<longrightarrow> quantity (h1 (snd ka)) \<noteq> 0"
  proof (intro ballI impI)
    fix ka assume ka: "ka \<in> set idx1" and ne: "snd ka \<noteq> n"
    from ka have in0: "ka \<in> set idx" by (simp add: idx1)
    with Q ne have q0: "quantity (h (snd ka)) \<noteq> 0" by simp
    from ka E2 have nr: "snd ka \<notin> set r" by force
    show "quantity (h1 (snd ka)) \<noteq> 0"
    proof (cases "snd ka \<in> set l1")
      case True
      with nz q0 show ?thesis by simp
    next
      case False
      with nr r have "snd ka \<notin> set lv" by simp
      with fr ne have "h1 (snd ka) = h (snd ka)" by simp
      with q0 show ?thesis by simp
    qed
  qed
  have 6: "crossfree (side (h1 n)) n own opp1"
    unfolding sd1 crossfree_def
  proof (intro ballI)
    fix x y assume x: "x \<in> set own" and y: "y \<in> set opp1"
    from y consider "y \<in> set opp" | "y = (p, l1)"
      unfolding set1 by (auto split: if_splits)
    then have "\<exists>y'\<in>set opp. fst y' = fst y"
    proof cases
      case 1
      then show ?thesis by blast
    next
      case 2
      with lv show ?thesis by force
    qed
    then obtain y' where y': "y' \<in> set opp" "fst y' = fst y" by blast
    from X x y'(1) have "apart ?sd (fst x) (fst y') \<or> snd x = [n]"
      unfolding crossfree_def by blast
    with y'(2) show "apart ?sd (fst x) (fst y) \<or> snd x = [n]" by simp
  qed
  from 1 2 3 4 5 6 show ?thesis by (simp add: mid_inv_def)
qed

lemma match_loop_stop:
  "quantity (h n) = 0 \<or> opp = [] \<or> \<not> canMatch (h n) (fst (best_level (side (h n)) opp))
   \<Longrightarrow> match_loop n h idx opp tr = Inr (h, idx, opp, tr)"
  by (subst match_loop.simps) auto

lemma no_match_apart:
  assumes inv: "mid_inv n h idx own opp"
    and nm: "\<not> canMatch (h n) (fst (best_level (side (h n)) opp))"
    and x: "x \<in> set own" and y: "y \<in> set opp"
  shows "apart (side (h n)) (fst x) (fst y)"
proof -
  from inv have O: "side_ok h (side (h n)) own"
    and P: "keys_ok opp" and X: "crossfree (side (h n)) n own opp"
    by (simp_all add: mid_inv_def side_ok_def)
  from X x y consider "apart (side (h n)) (fst x) (fst y)" | "snd x = [n]"
    unfolding crossfree_def by blast
  then show ?thesis
  proof cases
    case 1
    then show ?thesis .
  next
    case 2
    from O x have "level_ok h (side (h n)) x" by (simp add: side_ok_def)
    with 2 have px: "price (h n) = fst x" by (simp add: level_ok_def)
    show ?thesis
    proof (cases "side (h n)")
      case BUY
      with nm px have "fst x < fst (best_level BUY opp)" by (simp add: canMatch_def)
      also have "\<dots> \<le> fst y" by (rule best_level_BUY_least[OF P y])
      finally show ?thesis using BUY by (simp add: apart_def)
    next
      case SELL
      have "fst y \<le> fst (best_level SELL opp)" by (rule best_level_SELL_greatest[OF P y])
      also from SELL nm px have "\<dots> < fst x" by (simp add: canMatch_def)
      finally show ?thesis using SELL by (simp add: apart_def)
    qed
  qed
qed

lemma match_loop_inv:
  assumes "mid_inv n h idx own opp"
  shows "\<exists>res. match_loop n h idx opp tr = Inr res \<and> loop_post n h own res"
  using assms
proof (induction n h idx opp tr rule: match_loop.induct)
  case (1 n h idx opp tr)
  note inv = "1.prems"
  let ?sd = "side (h n)"
  show ?case
  proof (cases "quantity (h n) \<noteq> 0 \<and> opp \<noteq> []")
    case False
    then have "match_loop n h idx opp tr = Inr (h, idx, opp, tr)"
      by (intro match_loop_stop) auto
    moreover have "loop_post n h own (h, idx, opp, tr)"
      using False inv by (auto simp: loop_post_def)
    ultimately show ?thesis by simp
  next
    case cond: True
    show ?thesis
    proof (cases "canMatch (h n) (fst (best_level ?sd opp))")
      case False
      then have "match_loop n h idx opp tr = Inr (h, idx, opp, tr)"
        by (intro match_loop_stop) auto
      moreover have "loop_post n h own (h, idx, opp, tr)"
        using inv no_match_apart[OF inv False] by (simp add: loop_post_def)
      ultimately show ?thesis by simp
    next
      case cm: True
      then have nn: "\<not> \<not> canMatch (h n) (fst (best_level ?sd opp))" by simp
      obtain p lv where best: "best_level ?sd opp = (p, lv)" by (cases "best_level ?sd opp")
      from cond have bin: "(p, lv) \<in> set opp" using best_level_in[of opp ?sd] best by simp
      from inv have P: "side_ok h (other_side ?sd) opp" by (simp add: mid_inv_def)
      then have kopp: "keys_ok opp" by (simp add: side_ok_def)
      from P bin have lok: "level_ok h (other_side ?sd) (p, lv)" by (auto simp: side_ok_def)
      then have pre: "\<forall>a\<in>set lv. side (h a) \<noteq> side (h n)" "distinct lv"
        by (auto simp: level_ok_def)
      from match_level_spec[OF pre, of idx tr] obtain res1 where
        res1: "match_level n h idx lv tr = Inr res1" and post1: "level_post n h idx lv res1"
        by blast
      obtain h1 idx1 l1 tr1 where r1: "res1 = (h1, idx1, l1, tr1)" by (cases res1)
      have res1': "match_level n h idx (snd (best_level ?sd opp)) tr = Inr (h1, idx1, l1, tr1)"
        using res1 r1 best by simp
      from post1 r1 have st1: "same_static h h1" by (auto elim: level_postD)
      have sd1: "side (h1 n) = ?sd" by (rule same_static_fields(2)[OF st1])
      let ?opp1 = "if l1 = [] then erase_best ?sd opp
                   else write_best ?sd (fst (best_level ?sd opp), l1) opp"
      have k1: "keys_ok ?opp1"
        using kopp cond by (simp add: keys_ok_erase_best keys_ok_write_best)
      have set1: "set ?opp1 = (set opp - {(p, lv)}) \<union> (if l1 = [] then {} else {(p, l1)})"
        using kopp cond best by (simp add: set_erase_best set_write_best)
      have inv1: "mid_inv n h1 idx1 own ?opp1"
        by (rule mid_inv_step[OF inv bin post1[unfolded r1] k1 set1])
      have unfold: "match_loop n h idx opp tr = match_loop n h1 idx1 ?opp1 tr1"
        using cond cm res1' by (subst match_loop.simps) simp
      have "\<exists>res. match_loop n h1 idx1 ?opp1 tr1 = Inr res \<and> loop_post n h1 own res"
      proof (cases "l1 = []")
        case True
        from "1.IH"(1)[OF cond nn res1' refl refl refl True] inv1 True show ?thesis by simp
      next
        case False
        from "1.IH"(2)[OF cond nn res1' refl refl refl False] inv1 False show ?thesis by simp
      qed
      then obtain res where res: "match_loop n h1 idx1 ?opp1 tr1 = Inr res"
        and post: "loop_post n h1 own res" by blast
      have "loop_post n h own res"
        using post st1 sd1 by (auto simp: loop_post_def intro: same_static_trans)
      with unfold res show ?thesis by simp
    qed
  qed
qed

lemma map_remove_levels:
  assumes ok: "side_ok h sd m" and p: "price (h a) = p" and x': "x' \<in> set (map_remove p a m)"
  shows "\<exists>x\<in>set m. fst x = fst x' \<and> snd x \<noteq> [a]"
proof -
  from ok have kok: "keys_ok m" by (simp add: side_ok_def)
  have elsewhere: "snd x \<noteq> [a]" if "x \<in> set m" "a \<notin> set (snd x)" for x
    using that by auto
  show ?thesis
  proof (cases "m_find p m")
    case None
    then have "p \<notin> fst ` set m" by (simp add: m_find_None_iff)
    then have "a \<notin> addrs m" using side_ok_addrs(2)[OF ok, of a] p by force
    then have "a \<notin> set (snd x')" using x' None by (auto simp: map_remove_def addrs_def)
    with x' None show ?thesis by (auto simp: map_remove_def)
  next
    case (Some l)
    then have inl: "(p, l) \<in> set m" using kok by (simp add: m_find_Some_iff)
    have notR: "a \<notin> (\<Union>lv\<in>set m - {(p, l)}. set (snd lv))"
      by (rule side_ok_not_elsewhere[OF ok inl p])
    show ?thesis
    proof (cases "a \<in> set l")
      case False
      with notR addrs_split[OF inl] have "a \<notin> addrs m" by simp
      then have "a \<notin> set (snd x')" using x' Some False by (auto simp: map_remove_def addrs_def)
      with x' Some False show ?thesis by (auto simp: map_remove_def)
    next
      case True
      have set': "set (map_remove p a m) =
                  (set m - {(p, l)}) \<union> (if remove1 a l = [] then {} else {(p, remove1 a l)})"
        using Some True
        by (auto simp: map_remove_def set_m_erase set_m_put[OF kok] keys_ok_filter_neq[OF kok inl])
      from x' consider "x' \<in> set m" "x' \<noteq> (p, l)" | "remove1 a l \<noteq> []" "x' = (p, remove1 a l)"
        unfolding set' by (auto split: if_splits)
      then show ?thesis
      proof cases
        case 1
        with notR have "a \<notin> set (snd x')" by auto
        with 1 show ?thesis by auto
      next
        case 2
        then have "l \<noteq> [a]" by auto
        with inl 2 show ?thesis by force
      qed
    qed
  qed
qed

lemma book_inv_alt:
  "book_inv s \<longleftrightarrow>
     index_ok (heap s) (orders s) \<and>
     side_ok (heap s) sd (getPriceLevelMap sd s) \<and>
     side_ok (heap s) (other_side sd) (getPriceLevelMap (other_side sd) s) \<and>
     snd ` set (orders s) = addrs (getPriceLevelMap sd s) \<union> addrs (getPriceLevelMap (other_side sd) s) \<and>
     (\<forall>ka\<in>set (orders s). quantity (heap s (snd ka)) \<noteq> 0) \<and>
     (\<forall>x\<in>set (getPriceLevelMap sd s). \<forall>y\<in>set (getPriceLevelMap (other_side sd) s).
        apart sd (fst x) (fst y))"
proof (cases sd)
  case BUY
  then show ?thesis
    by (simp add: book_inv_def getPriceLevelMap_def other_side_def apart_def no_cross_def)
next
  case SELL
  have "no_cross (bids s) (asks s) \<longleftrightarrow> (\<forall>x\<in>set (asks s). \<forall>y\<in>set (bids s). fst y < fst x)"
    by (auto simp: no_cross_def)
  with SELL show ?thesis
    by (simp add: book_inv_def getPriceLevelMap_def other_side_def apart_def Un_commute)
      blast
qed

lemma getPriceLevelMap_set [simp]:
  "getPriceLevelMap sd (setPriceLevelMap sd m s) = m"
  "getPriceLevelMap (other_side sd) (setPriceLevelMap sd m s) = getPriceLevelMap (other_side sd) s"
  "heap (setPriceLevelMap sd m s) = heap s"
  "orders (setPriceLevelMap sd m s) = orders s"
  "trades (setPriceLevelMap sd m s) = trades s"
  by (cases sd; simp add: getPriceLevelMap_def setPriceLevelMap_def other_side_def)+

lemma getPriceLevelMap_upd [simp]:
  "getPriceLevelMap sd (s\<lparr>heap := h\<rparr>) = getPriceLevelMap sd s"
  "getPriceLevelMap sd (s\<lparr>orders := idx\<rparr>) = getPriceLevelMap sd s"
  "getPriceLevelMap sd (s\<lparr>trades := tr\<rparr>) = getPriceLevelMap sd s"
  by (simp_all add: getPriceLevelMap_def)

lemma getPriceLevelMap_set_other [simp]:
  "getPriceLevelMap sd (setPriceLevelMap (other_side sd) m s) = getPriceLevelMap sd s"
  by (cases sd; simp add: getPriceLevelMap_def setPriceLevelMap_def other_side_def)

lemma matchOrders_alt:
  "matchOrders s n =
     (case match_loop n (heap s) (orders s)
             (getPriceLevelMap (other_side (side (heap s n))) s) (trades s) of
        Inl e \<Rightarrow> Inl e
      | Inr (h', idx', opp', tr') \<Rightarrow>
          if quantity (h' n) = 0
          then Inr (removeOrderFromPriceLevel
                      ((setPriceLevelMap (other_side (side (heap s n))) opp'
                          (s\<lparr>heap := h', orders := idx', trades := tr'\<rparr>))
                         \<lparr>orders := m_erase (orderId (h' n)) idx'\<rparr>) n)
          else Inr (setPriceLevelMap (other_side (side (heap s n))) opp'
                      (s\<lparr>heap := h', orders := idx', trades := tr'\<rparr>)))"
  by (cases s; cases "side (heap s n)")
     (simp_all add: matchOrders_def setPriceLevelMap_def getPriceLevelMap_def other_side_def
        Let_def split: sum.splits prod.splits)

lemma matchOrders_inv:
  assumes inv: "mid_inv n (heap s) (orders s) (getPriceLevelMap (side (heap s n)) s)
                  (getPriceLevelMap (other_side (side (heap s n))) s)"
    and nin: "n \<in> addrs (getPriceLevelMap (side (heap s n)) s)"
  shows "\<exists>s'. matchOrders s n = Inr s' \<and> book_inv s' \<and> same_static (heap s) (heap s')"
proof -
  let ?sd = "side (heap s n)"
  let ?own = "getPriceLevelMap ?sd s"
  let ?opp = "getPriceLevelMap (other_side ?sd) s"
  from match_loop_inv[OF inv, of "trades s"] obtain res where
    res: "match_loop n (heap s) (orders s) ?opp (trades s) = Inr res"
    and post: "loop_post n (heap s) ?own res" by blast
  obtain h' idx' opp' tr' where r: "res = (h', idx', opp', tr')" by (cases res)
  from post r have inv': "mid_inv n h' idx' ?own opp'" and st: "same_static (heap s) h'"
    and exit: "quantity (h' n) \<noteq> 0 \<longrightarrow>
                 (\<forall>x\<in>set ?own. \<forall>y\<in>set opp'. apart ?sd (fst x) (fst y))"
    by (simp_all add: loop_post_def)
  have sd': "side (h' n) = ?sd" by (rule same_static_fields(2)[OF st])
  from inv' have I: "index_ok h' idx'" and O: "side_ok h' ?sd ?own"
    and P: "side_ok h' (other_side ?sd) opp'"
    and C: "snd ` set idx' = addrs ?own \<union> addrs opp'"
    and Q: "\<forall>ka\<in>set idx'. snd ka \<noteq> n \<longrightarrow> quantity (h' (snd ka)) \<noteq> 0"
    and X: "crossfree ?sd n ?own opp'"
    by (simp_all add: mid_inv_def sd')
  let ?s1 = "setPriceLevelMap (other_side ?sd) opp' (s\<lparr>heap := h', orders := idx', trades := tr'\<rparr>)"
  show ?thesis
  proof (cases "quantity (h' n) = 0")
    case False
    have mo: "matchOrders s n = Inr ?s1"
      using res r False by (simp add: matchOrders_alt)
    have "book_inv ?s1"
      unfolding book_inv_alt[of ?s1 ?sd] using I O P C Q exit False by auto
    with mo st show ?thesis by simp
  next
    case True
    let ?idx2 = "m_erase (orderId (h' n)) idx'"
    let ?own2 = "map_remove (price (h' n)) n ?own"
    let ?s2 = "setPriceLevelMap ?sd ?own2 (?s1\<lparr>orders := ?idx2\<rparr>)"
    have "removeOrderFromPriceLevel (?s1\<lparr>orders := ?idx2\<rparr>) n = ?s2"
      by (simp add: removeOrderFromPriceLevel_alt sd')
    then have mo: "matchOrders s n = Inr ?s2"
      using res r True by (simp add: matchOrders_alt)
    note rm = map_remove_ok[OF O refl, of n]
    from C nin have nidx: "{n} \<subseteq> snd ` set idx'" by auto
    have idx2: "?idx2 = filter (\<lambda>kv. fst kv \<notin> orderId ` h' ` {n}) idx'"
      by (simp add: m_erase_def)
    have E2: "snd ` set ?idx2 = snd ` set idx' - {n}"
      unfolding idx2 by (rule index_filter_addrs[OF I nidx])
    have nopp: "n \<notin> addrs opp'"
      using side_ok_addrs(1)[OF P, of n] sd' by auto
    have 1: "index_ok h' ?idx2"
      using I unfolding idx2 by (auto simp: index_ok_def keys_ok_filter)
    have 4: "snd ` set ?idx2 = addrs ?own2 \<union> addrs opp'"
      unfolding E2 rm(2) C using nopp by auto
    have 5: "\<forall>ka\<in>set ?idx2. quantity (h' (snd ka)) \<noteq> 0"
    proof
      fix ka assume ka: "ka \<in> set ?idx2"
      then have "snd ka \<noteq> n" using E2 by force
      moreover from ka have "ka \<in> set idx'" by (simp add: m_erase_def)
      ultimately show "quantity (h' (snd ka)) \<noteq> 0" using Q by simp
    qed
    have 6: "\<forall>x\<in>set ?own2. \<forall>y\<in>set opp'. apart ?sd (fst x) (fst y)"
    proof (intro ballI)
      fix x' y assume x': "x' \<in> set ?own2" and y: "y \<in> set opp'"
      from map_remove_levels[OF O refl x'] obtain x where
        x: "x \<in> set ?own" "fst x = fst x'" "snd x \<noteq> [n]" by blast
      with X y show "apart ?sd (fst x') (fst y)" unfolding crossfree_def by force
    qed
    have "book_inv ?s2"
      unfolding book_inv_alt[of ?s2 ?sd] using 1 rm(1) P 4 5 6 by simp
    with mo st show ?thesis by simp
  qed
qed

lemma level_ok_frame:
  assumes "\<forall>b\<in>set (snd lv). h' b = h b"
  shows "level_ok h' sd lv = level_ok h sd lv"
proof -
  from assms have m: "map (\<lambda>a. timestamp (h' a)) (snd lv) = map (\<lambda>a. timestamp (h a)) (snd lv)"
    by (intro map_cong) auto
  show ?thesis unfolding level_ok_def m using assms by auto
qed

lemma side_ok_frame:
  assumes "\<forall>b\<in>addrs m. h' b = h b"
  shows "side_ok h' sd m = side_ok h sd m"
proof -
  have "level_ok h' sd lv = level_ok h sd lv" if "lv \<in> set m" for lv
    using assms that by (intro level_ok_frame) (auto simp: addrs_def)
  then show ?thesis by (auto simp: side_ok_def)
qed

lemma map_add_levels:
  assumes kok: "keys_ok m" and x': "x' \<in> set (map_add impl h p a m)"
  shows "(\<exists>x\<in>set m. fst x = fst x') \<or> snd x' = [a]"
proof -
  from x' consider "x' \<in> set m"
    | "x' = (p, std_sort impl (\<lambda>b. timestamp (h b)) ((case m_find p m of None \<Rightarrow> [] | Some l \<Rightarrow> l) @ [a]))"
    by (auto simp: map_add_def set_m_put[OF kok])
  then show ?thesis
  proof cases
    case 1
    then show ?thesis by blast
  next
    case 2
    show ?thesis
    proof (cases "m_find p m")
      case None
      with 2 show ?thesis by simp
    next
      case (Some l)
      then have "(p, l) \<in> set m" using kok by (simp add: m_find_Some_iff)
      with 2 show ?thesis by force
    qed
  qed
qed

lemma insert_mid_inv:
  assumes I: "index_ok h idx"
    and O: "side_ok h sd own" and P: "side_ok h (other_side sd) opp"
    and sd: "side (h a) = sd"
    and fresh: "a \<notin> addrs own"
    and C: "snd ` set idx = insert a (addrs own \<union> addrs opp)"
    and Q: "\<forall>ka\<in>set idx. snd ka \<noteq> a \<longrightarrow> quantity (h (snd ka)) \<noteq> 0"
    and X: "\<forall>x\<in>set own. \<forall>y\<in>set opp. apart sd (fst x) (fst y)"
  shows "mid_inv a h idx (map_add impl h (price (h a)) a own) opp"
    and "a \<in> addrs (map_add impl h (price (h a)) a own)"
proof -
  note ad = map_add_ok[OF O refl sd fresh]
  from O have kok: "keys_ok own" by (simp add: side_ok_def)
  have cf: "crossfree sd a (map_add impl h (price (h a)) a own) opp"
    unfolding crossfree_def
  proof (intro ballI)
    fix x' y assume x': "x' \<in> set (map_add impl h (price (h a)) a own)" and y: "y \<in> set opp"
    from map_add_levels[OF kok x'] consider x where "x \<in> set own" "fst x = fst x'" | "snd x' = [a]"
      by blast
    then show "apart sd (fst x') (fst y) \<or> snd x' = [a]"
    proof cases
      case 1
      with X y show ?thesis by force
    next
      case 2
      then show ?thesis by simp
    qed
  qed
  show "mid_inv a h idx (map_add impl h (price (h a)) a own) opp"
    unfolding mid_inv_def sd using I ad(1) P C Q cf by (simp add: ad(2))
  show "a \<in> addrs (map_add impl h (price (h a)) a own)" by (simp add: ad(2))
qed

lemma book_inv_indexed_side:
  assumes inv: "book_inv s" and a: "(k, a) \<in> set (orders s)"
  shows "a \<in> addrs (getPriceLevelMap (side (heap s a)) s)"
    and "a \<notin> addrs (getPriceLevelMap (other_side (side (heap s a))) s)"
proof -
  let ?sd = "side (heap s a)"
  from inv[unfolded book_inv_alt[of s ?sd]]
  have O: "side_ok (heap s) ?sd (getPriceLevelMap ?sd s)"
    and P: "side_ok (heap s) (other_side ?sd) (getPriceLevelMap (other_side ?sd) s)"
    and C: "snd ` set (orders s) = addrs (getPriceLevelMap ?sd s) \<union> addrs (getPriceLevelMap (other_side ?sd) s)"
    by simp_all
  show no: "a \<notin> addrs (getPriceLevelMap (other_side ?sd) s)"
    using side_ok_addrs(1)[OF P, of a] by auto
  from a have "a \<in> snd ` set (orders s)" by force
  with C no show "a \<in> addrs (getPriceLevelMap ?sd s)" by auto
qed

lemma addOrder_inv:
  assumes inv: "book_inv s" and q: "quantity (heap s a) \<noteq> 0"
    and new: "m_find (orderId (heap s a)) (orders s) = None"
  shows "\<exists>s'. addOrder impl s (Some a) = Inr (True, s') \<and> book_inv s' \<and> same_static (heap s) (heap s')"
proof -
  let ?h = "heap s"
  let ?sd = "side (?h a)"
  let ?own = "getPriceLevelMap ?sd s"
  let ?opp = "getPriceLevelMap (other_side ?sd) s"
  let ?idx = "m_put (orderId (?h a)) a (orders s)"
  let ?s2 = "addOrderToPriceLevel impl (s\<lparr>orders := ?idx\<rparr>) a"
  from inv[unfolded book_inv_alt[of s ?sd]]
  have I: "index_ok ?h (orders s)" and O: "side_ok ?h ?sd ?own"
    and P: "side_ok ?h (other_side ?sd) ?opp"
    and C: "snd ` set (orders s) = addrs ?own \<union> addrs ?opp"
    and Q: "\<forall>ka\<in>set (orders s). quantity (?h (snd ka)) \<noteq> 0"
    and X: "\<forall>x\<in>set ?own. \<forall>y\<in>set ?opp. apart ?sd (fst x) (fst y)"
    by simp_all
  from I have kidx: "keys_ok (orders s)" by (simp add: index_ok_def)
  from new have nk: "orderId (?h a) \<notin> fst ` set (orders s)" by (simp add: m_find_None_iff)
  have nidx: "a \<notin> snd ` set (orders s)"
  proof
    assume "a \<in> snd ` set (orders s)"
    then obtain k where k: "(k, a) \<in> set (orders s)" by force
    with I have "k = orderId (?h a)" by (force simp: index_ok_def)
    with k nk show False by force
  qed
  have seti: "set ?idx = insert (orderId (?h a), a) (set (orders s))"
    using nk by (force simp: set_m_put[OF kidx])
  have I': "index_ok ?h ?idx"
    using I by (auto simp: index_ok_def keys_ok_m_put seti)
  have fresh: "a \<notin> addrs ?own" using nidx C by auto
  have C': "snd ` set ?idx = insert a (addrs ?own \<union> addrs ?opp)"
    unfolding seti using C by simp
  have Q': "\<forall>ka\<in>set ?idx. snd ka \<noteq> a \<longrightarrow> quantity (?h (snd ka)) \<noteq> 0"
    unfolding seti using Q by auto
  note mi = insert_mid_inv[OF I' O P refl fresh C' Q' X]
  have s2: "heap ?s2 = ?h" "orders ?s2 = ?idx"
    "getPriceLevelMap ?sd ?s2 = map_add impl ?h (price (?h a)) a ?own"
    "getPriceLevelMap (other_side ?sd) ?s2 = ?opp"
    by (simp_all add: addOrderToPriceLevel_alt)
  have "mid_inv a (heap ?s2) (orders ?s2) (getPriceLevelMap (side (heap ?s2 a)) ?s2)
          (getPriceLevelMap (other_side (side (heap ?s2 a))) ?s2)"
    and "a \<in> addrs (getPriceLevelMap (side (heap ?s2 a)) ?s2)"
    using mi by (simp_all only: s2)
  from matchOrders_inv[OF this] obtain s' where
    "matchOrders ?s2 a = Inr s'" "book_inv s'" "same_static (heap ?s2) (heap s')" by blast
  then show ?thesis using q new by (simp add: addOrder_def s2(1))
qed

lemma cancelOrder_inv:
  assumes inv: "book_inv s"
  shows "book_inv (snd (cancelOrder s oid))"
proof (cases "m_find oid (orders s)")
  case None
  with inv show ?thesis by (simp add: cancelOrder_def)
next
  case (Some a)
  let ?h = "heap s"
  let ?sd = "side (?h a)"
  let ?own = "getPriceLevelMap ?sd s"
  let ?opp = "getPriceLevelMap (other_side ?sd) s"
  let ?own1 = "map_remove (price (?h a)) a ?own"
  let ?idx1 = "m_erase oid (orders s)"
  let ?s' = "(removeOrderFromPriceLevel s a)\<lparr>orders := ?idx1\<rparr>"
  from inv[unfolded book_inv_alt[of s ?sd]]
  have I: "index_ok ?h (orders s)" and O: "side_ok ?h ?sd ?own"
    and P: "side_ok ?h (other_side ?sd) ?opp"
    and C: "snd ` set (orders s) = addrs ?own \<union> addrs ?opp"
    and Q: "\<forall>ka\<in>set (orders s). quantity (?h (snd ka)) \<noteq> 0"
    and X: "\<forall>x\<in>set ?own. \<forall>y\<in>set ?opp. apart ?sd (fst x) (fst y)"
    by simp_all
  from I have kidx: "keys_ok (orders s)" by (simp add: index_ok_def)
  from Some have ain: "(oid, a) \<in> set (orders s)" using kidx by (simp add: m_find_Some_iff)
  with I have oid: "orderId (?h a) = oid" by (force simp: index_ok_def)
  note side = book_inv_indexed_side[OF inv ain]
  note rm = map_remove_ok[OF O refl, of a]
  have s': "heap ?s' = ?h" "orders ?s' = ?idx1" "getPriceLevelMap ?sd ?s' = ?own1"
    "getPriceLevelMap (other_side ?sd) ?s' = ?opp"
    by (simp_all add: removeOrderFromPriceLevel_alt)
  have idx1: "?idx1 = filter (\<lambda>kv. fst kv \<notin> orderId ` ?h ` {a}) (orders s)"
    by (simp add: m_erase_def oid)
  have asub: "{a} \<subseteq> snd ` set (orders s)" using ain by force
  have E2: "snd ` set ?idx1 = snd ` set (orders s) - {a}"
    unfolding idx1 by (rule index_filter_addrs[OF I asub])
  have 1: "index_ok ?h ?idx1"
    using I unfolding idx1 by (auto simp: index_ok_def keys_ok_filter)
  have 4: "snd ` set ?idx1 = addrs ?own1 \<union> addrs ?opp"
    unfolding E2 rm(2) C using side(2) by auto
  have 5: "\<forall>ka\<in>set ?idx1. quantity (?h (snd ka)) \<noteq> 0"
    using Q by (auto simp: m_erase_def)
  have 6: "\<forall>x\<in>set ?own1. \<forall>y\<in>set ?opp. apart ?sd (fst x) (fst y)"
  proof (intro ballI)
    fix x' y assume x': "x' \<in> set ?own1" and y: "y \<in> set ?opp"
    from map_remove_levels[OF O refl x'] obtain x where "x \<in> set ?own" "fst x = fst x'" by blast
    with X y show "apart ?sd (fst x') (fst y)" by force
  qed
  have "book_inv ?s'"
    unfolding book_inv_alt[of ?s' ?sd] s' using 1 rm(1) P 4 5 6 by simp
  with Some show ?thesis by (simp add: cancelOrder_def)
qed

lemma modifyOrder_inv:
  assumes inv: "book_inv s" and found: "m_find oid (orders s) = Some a"
  shows "\<exists>s'. modifyOrder impl s oid newPrice newQuantity now = Inr (True, s') \<and> book_inv s' \<and>
           same_static
             ((heap s)(a := (heap s a)\<lparr>price := newPrice, quantity := newQuantity,
                                        timestamp := now\<rparr>)) (heap s')"
proof -
  let ?h = "heap s"
  let ?sd = "side (?h a)"
  let ?own = "getPriceLevelMap ?sd s"
  let ?opp = "getPriceLevelMap (other_side ?sd) s"
  let ?own1 = "map_remove (price (?h a)) a ?own"
  let ?h2 = "?h(a := (?h a)\<lparr>price := newPrice, quantity := newQuantity, timestamp := now\<rparr>)"
  let ?s1 = "removeOrderFromPriceLevel s a"
  let ?s2 = "?s1\<lparr>heap := ?h2\<rparr>"
  let ?s3 = "addOrderToPriceLevel impl ?s2 a"
  from inv[unfolded book_inv_alt[of s ?sd]]
  have I: "index_ok ?h (orders s)" and O: "side_ok ?h ?sd ?own"
    and P: "side_ok ?h (other_side ?sd) ?opp"
    and C: "snd ` set (orders s) = addrs ?own \<union> addrs ?opp"
    and Q: "\<forall>ka\<in>set (orders s). quantity (?h (snd ka)) \<noteq> 0"
    and X: "\<forall>x\<in>set ?own. \<forall>y\<in>set ?opp. apart ?sd (fst x) (fst y)"
    by simp_all
  from I have kidx: "keys_ok (orders s)" by (simp add: index_ok_def)
  from found have ain: "(oid, a) \<in> set (orders s)" using kidx by (simp add: m_find_Some_iff)
  note side = book_inv_indexed_side[OF inv ain]
  note rm = map_remove_ok[OF O refl, of a]
  have s1: "heap ?s1 = ?h" "orders ?s1 = orders s" "getPriceLevelMap ?sd ?s1 = ?own1"
    "getPriceLevelMap (other_side ?sd) ?s1 = ?opp"
    by (simp_all add: removeOrderFromPriceLevel_alt)
  have h2: "side (?h2 a) = ?sd" "price (?h2 a) = newPrice" by simp_all
  have s3: "heap ?s3 = ?h2" "orders ?s3 = orders s"
    "getPriceLevelMap ?sd ?s3 = map_add impl ?h2 (price (?h2 a)) a ?own1"
    "getPriceLevelMap (other_side ?sd) ?s3 = ?opp"
    by (simp_all add: addOrderToPriceLevel_alt s1)
  have I2: "index_ok ?h2 (orders s)"
    using I by (auto simp: index_ok_def)
  have fresh: "a \<notin> addrs ?own1" by (simp add: rm(2))
  have O2: "side_ok ?h2 ?sd ?own1"
    using rm(1) fresh by (subst side_ok_frame[where h = ?h]) auto
  have P2: "side_ok ?h2 (other_side ?sd) ?opp"
    using P side(2) by (subst side_ok_frame[where h = ?h]) auto
  have C2: "snd ` set (orders s) = insert a (addrs ?own1 \<union> addrs ?opp)"
    unfolding C rm(2) using side(1) by auto
  have Q2: "\<forall>ka\<in>set (orders s). snd ka \<noteq> a \<longrightarrow> quantity (?h2 (snd ka)) \<noteq> 0"
    using Q by simp
  have X2: "\<forall>x\<in>set ?own1. \<forall>y\<in>set ?opp. apart ?sd (fst x) (fst y)"
  proof (intro ballI)
    fix x' y assume x': "x' \<in> set ?own1" and y: "y \<in> set ?opp"
    from map_remove_levels[OF O refl x'] obtain x where "x \<in> set ?own" "fst x = fst x'" by blast
    with X y show "apart ?sd (fst x') (fst y)" by force
  qed
  note mi = insert_mid_inv[OF I2 O2 P2 h2(1) fresh C2 Q2 X2]
  have "mid_inv a (heap ?s3) (orders ?s3) (getPriceLevelMap (side (heap ?s3 a)) ?s3)
          (getPriceLevelMap (other_side (side (heap ?s3 a))) ?s3)"
    and "a \<in> addrs (getPriceLevelMap (side (heap ?s3 a)) ?s3)"
    using mi by (simp_all only: s3 h2)
  from matchOrders_inv[OF this] obtain s' where
    "matchOrders ?s3 a = Inr s'" "book_inv s'" "same_static (heap ?s3) (heap s')" by blast
  then show ?thesis using found by (simp add: modifyOrder_def Let_def s1(1) s3(1))
qed

lemma book_inv_empty: "book_inv (empty_book h)"
  by (simp add: book_inv_def empty_book_def index_ok_def no_cross_def)

lemma clear_inv: "book_inv (clear s)"
  by (simp add: book_inv_def clear_def index_ok_def no_cross_def)

lemma distinct_count_one: "distinct l \<Longrightarrow> a \<in> set l \<Longrightarrow> count_list l a = 1"
  by (induction l) auto

lemma book_inv_sides:
  assumes "book_inv s"
  shows "side_ok (heap s) sd (getPriceLevelMap sd s)"
  using assms by (cases sd) (simp_all add: book_inv_def getPriceLevelMap_def)

lemma book_inv_level_indexed:
  assumes inv: "book_inv s" and lv: "lv \<in> set (getPriceLevelMap sd s)" and a: "a \<in> set (snd lv)"
  shows "(orderId (heap s a), a) \<in> set (orders s)"
proof -
  from lv a have "a \<in> addrs (getPriceLevelMap sd s)" by (auto simp: addrs_def)
  then have "a \<in> addrs (bids s) \<union> addrs (asks s)"
    by (cases sd) (simp_all add: getPriceLevelMap_def)
  with inv have "a \<in> snd ` set (orders s)" by (simp add: book_inv_def)
  then obtain k where k: "(k, a) \<in> set (orders s)" by force
  with inv have "k = orderId (heap s a)" by (force simp: book_inv_def index_ok_def)
  with k show ?thesis by simp
qed

lemma book_inv_well_formed:
  assumes inv: "book_inv s"
  shows "well_formed s"
proof -
  from inv have I: "index_ok (heap s) (orders s)"
    and Q: "\<forall>ka\<in>set (orders s). quantity (heap s (snd ka)) \<noteq> 0"
    by (simp_all add: book_inv_def)
  then have kidx: "keys_ok (orders s)" by (simp add: index_ok_def)
  have A: "snd lv \<noteq> [] \<and> m_find (fst lv) (getPriceLevelMap sd s) = Some (snd lv) \<and>
        (\<forall>a\<in>set (snd lv).
           m_find (orderId (heap s a)) (orders s) = Some a \<and> quantity (heap s a) \<noteq> 0)"
    if lv: "lv \<in> set (getPriceLevelMap sd s)" for sd lv
  proof -
    note so = book_inv_sides[OF inv, of sd]
    then have k: "keys_ok (getPriceLevelMap sd s)" and l: "level_ok (heap s) sd lv"
      using lv by (simp_all add: side_ok_def)
    from lv have "(fst lv, snd lv) \<in> set (getPriceLevelMap sd s)" by simp
    then have "m_find (fst lv) (getPriceLevelMap sd s) = Some (snd lv)"
      by (simp add: m_find_Some_iff[OF k])
    moreover have "m_find (orderId (heap s a)) (orders s) = Some a \<and> quantity (heap s a) \<noteq> 0"
      if "a \<in> set (snd lv)" for a
    proof -
      from book_inv_level_indexed[OF inv lv that]
      have "(orderId (heap s a), a) \<in> set (orders s)" .
      with Q show ?thesis by (force simp: m_find_Some_iff[OF kidx])
    qed
    ultimately show ?thesis using l by (simp add: level_ok_def)
  qed
  have B: "quantity (heap s (snd ka)) \<noteq> 0 \<and>
        (\<exists>l. m_find (price (heap s (snd ka))) (getPriceLevelMap (side (heap s (snd ka))) s) = Some l
             \<and> count_list l (snd ka) = 1) \<and>
        (\<forall>sd. \<forall>lv\<in>set (getPriceLevelMap sd s).
           snd ka \<in> set (snd lv) \<longrightarrow> sd = side (heap s (snd ka)) \<and> fst lv = price (heap s (snd ka)))"
    if ka: "ka \<in> set (orders s)" for ka
  proof -
    let ?a = "snd ka"
    let ?sd = "side (heap s ?a)"
    from ka have "(fst ka, ?a) \<in> set (orders s)" by simp
    note in_own = book_inv_indexed_side(1)[OF inv this]
    note so = book_inv_sides[OF inv, of ?sd]
    from side_ok_addrs(2)[OF so in_own] obtain l where
      l: "(price (heap s ?a), l) \<in> set (getPriceLevelMap ?sd s)" "?a \<in> set l" by blast
    from so l(1) have "distinct l" by (auto simp: side_ok_def level_ok_def)
    with l(2) have "count_list l ?a = 1" by (simp add: distinct_count_one)
    moreover from so l(1) have "m_find (price (heap s ?a)) (getPriceLevelMap ?sd s) = Some l"
      by (simp add: m_find_Some_iff side_ok_def)
    moreover have "sd = ?sd \<and> fst lv = price (heap s ?a)"
      if "lv \<in> set (getPriceLevelMap sd s)" "?a \<in> set (snd lv)" for sd lv
      using side_ok_member[OF book_inv_sides[OF inv, of sd], of "fst lv" "snd lv" ?a] that by simp
    ultimately show ?thesis using Q ka by blast
  qed
  show ?thesis unfolding well_formed_def using A B by blast
qed

lemma addOrder_rejected:
  assumes "order = None \<or> (\<exists>a. order = Some a \<and>
             (quantity (heap s a) = 0 \<or> m_find (orderId (heap s a)) (orders s) \<noteq> None))"
  shows "addOrder impl s order = Inr (False, s)"
  using assms by (auto simp: addOrder_def)

lemma addOrder_total:
  assumes inv: "book_inv s"
  shows "\<exists>ok s'. addOrder impl s order = Inr (ok, s') \<and> book_inv s' \<and> same_static (heap s) (heap s')"
proof (cases "order = None \<or> (\<exists>a. order = Some a \<and>
             (quantity (heap s a) = 0 \<or> m_find (orderId (heap s a)) (orders s) \<noteq> None))")
  case True
  from addOrder_rejected[OF this] inv show ?thesis by auto
next
  case False
  then obtain a where a: "order = Some a" "quantity (heap s a) \<noteq> 0"
    "m_find (orderId (heap s a)) (orders s) = None" by (cases order) auto
  from addOrder_inv[OF inv a(2,3)] a(1) show ?thesis by blast
qed

lemma modifyOrder_total:
  assumes inv: "book_inv s"
  shows "\<exists>ok s'. modifyOrder impl s oid newPrice newQuantity now = Inr (ok, s') \<and> book_inv s'"
proof (cases "m_find oid (orders s)")
  case None
  then have "modifyOrder impl s oid newPrice newQuantity now = Inr (False, s)"
    by (simp add: modifyOrder_def)
  with inv show ?thesis by auto
next
  case (Some a)
  from modifyOrder_inv[OF inv Some] show ?thesis by blast
qed

lemma apply_op_inv:
  assumes inv: "book_inv s"
  shows "\<exists>s'. apply_op impl s op = Inr s' \<and> book_inv s'"
proof (cases op)
  case (AddOrder order)
  from addOrder_total[OF inv, of impl order] AddOrder show ?thesis by auto
next
  case (CancelOrder oid)
  with cancelOrder_inv[OF inv, of oid] show ?thesis by simp
next
  case (ModifyOrder oid p q now)
  from modifyOrder_total[OF inv, of impl oid p q now] ModifyOrder show ?thesis by auto
next
  case Clear
  then show ?thesis by (simp add: clear_inv)
qed

lemma run_inv: "book_inv s \<Longrightarrow> \<exists>s'. run impl s ops = Inr s' \<and> book_inv s'"
proof (induction ops arbitrary: s)
  case Nil
  then show ?case by simp
next
  case (Cons op ops)
  from apply_op_inv[OF Cons.prems, of impl op] obtain s1 where
    s1: "apply_op impl s op = Inr s1" "book_inv s1" by blast
  from Cons.IH[OF s1(2)] s1(1) show ?case by simp
qed

lemma book_inv_best:
  assumes inv: "book_inv s" and b: "getBestBid s = Some b" and a: "getBestAsk s = Some a"
  shows "b < a"
proof -
  from b have "bids s \<noteq> []" "b = fst (last (bids s))"
    by (auto simp: getBestBid_def split: if_splits)
  moreover from a have "asks s \<noteq> []" "a = fst (hd (asks s))"
    by (auto simp: getBestAsk_def split: if_splits)
  moreover from inv have "no_cross (bids s) (asks s)" by (simp add: book_inv_def)
  ultimately show ?thesis by (simp add: no_cross_def)
qed

lemma add_rejected_iff:
  "add_rejected s order \<longleftrightarrow>
     order = None \<or> (\<exists>a. order = Some a \<and>
        (quantity (heap s a) = 0 \<or> m_find (orderId (heap s a)) (orders s) \<noteq> None))"
  by (cases order) (simp_all add: add_rejected_def)

lemma keys_ok_last_Max:
  fixes m :: PriceLevelMap
  assumes "keys_ok m" "m \<noteq> []"
  shows "fst (last m) = Max (fst ` set m)"
proof (rule Max_eqI[symmetric])
  show "finite (fst ` set m)" by simp
  show "fst (last m) \<in> fst ` set m" using assms(2) by simp
  fix k assume "k \<in> fst ` set m"
  then obtain kv where "kv \<in> set m" "k = fst kv" by auto
  with best_level_SELL_greatest[OF assms(1), of kv] show "k \<le> fst (last m)"
    by (simp add: best_level_def)
qed

lemma keys_ok_hd_Min:
  fixes m :: PriceLevelMap
  assumes "keys_ok m" "m \<noteq> []"
  shows "fst (hd m) = Min (fst ` set m)"
proof (rule Min_eqI[symmetric])
  show "finite (fst ` set m)" by simp
  show "fst (hd m) \<in> fst ` set m" using assms(2) by simp
  fix k assume "k \<in> fst ` set m"
  then obtain kv where "kv \<in> set m" "k = fst kv" by auto
  with best_level_BUY_least[OF assms(1), of kv] show "fst (hd m) \<le> k"
    by (simp add: best_level_def)
qed

lemma side_ok_prices:
  assumes "side_ok h sd m"
  shows "(\<lambda>a. price (h a)) ` addrs m = fst ` set m"
proof (intro set_eqI iffI)
  fix p assume "p \<in> (\<lambda>a. price (h a)) ` addrs m"
  then obtain a where a: "a \<in> addrs m" "p = price (h a)" by auto
  from side_ok_addrs(2)[OF assms a(1)] a(2) show "p \<in> fst ` set m" by force
next
  fix p assume "p \<in> fst ` set m"
  then obtain l where l: "(p, l) \<in> set m" by force
  with assms have "level_ok h sd (p, l)" by (auto simp: side_ok_def)
  then obtain a where "a \<in> set l" "price (h a) = p" by (cases l) (auto simp: level_ok_def)
  with l show "p \<in> (\<lambda>a. price (h a)) ` addrs m" by (force simp: addrs_iff)
qed

lemma cancelOrder_heap [simp]: "heap (snd (cancelOrder s oid)) = heap s"
  by (simp add: cancelOrder_def removeOrderFromPriceLevel_alt split: option.splits)



lemma m_put_m_erase:
  "keys_ok m \<Longrightarrow> (k, v) \<in> set m \<Longrightarrow> m_put k v (m_erase k m) = m"
proof (induction m)
  case Nil
  then show ?case by simp
next
  case (Cons x m)
  obtain k' v' where x: "x = (k', v')" by (cases x)
  from Cons.prems have ok: "keys_ok m" and lt: "\<forall>y\<in>set m. k' < fst y"
    by (auto simp: keys_ok_Cons x)
  show ?case
  proof (cases "k = k'")
    case True
    with Cons.prems(2) lt have v: "v = v'" by (auto simp: x)
    from lt True have "filter (\<lambda>kv. fst kv \<noteq> k) m = m" by (intro filter_True) force
    moreover have "m_put k v m = (k, v) # m" using lt True by (cases m) auto
    ultimately show ?thesis using True v by (simp add: x m_erase_def)
  next
    case False
    with Cons.prems(2) have inm: "(k, v) \<in> set m" by (simp add: x)
    with lt have "k' < k" by force
    with Cons.IH[OF ok inm] False show ?thesis by (simp add: x m_erase_def)
  qed
qed


lemma level_ops_keep [simp]:
  "heap (removeOrderFromPriceLevel s a) = heap s"
  "orders (removeOrderFromPriceLevel s a) = orders s"
  "trades (removeOrderFromPriceLevel s a) = trades s"
  "heap (addOrderToPriceLevel impl s a) = heap s"
  "orders (addOrderToPriceLevel impl s a) = orders s"
  "trades (addOrderToPriceLevel impl s a) = trades s"
  by (simp_all add: removeOrderFromPriceLevel_alt addOrderToPriceLevel_alt)



lemma withdrawn_alt:
  assumes "m_find oid (orders s) = Some a"
  shows "withdrawn s oid a p q now =
         ((setPriceLevelMap (side (heap s a))
             (map_remove (price (heap s a)) a (getPriceLevelMap (side (heap s a)) s)) s)
            \<lparr>orders := m_erase oid (orders s)\<rparr>)
            \<lparr>heap := (heap s)(a := (heap s a)\<lparr>price := p, quantity := q, timestamp := now\<rparr>)\<rparr>"
  using assms by (simp add: withdrawn_def cancelOrder_def removeOrderFromPriceLevel_alt)

lemma book_inv_found:
  assumes inv: "book_inv s" and found: "m_find oid (orders s) = Some a"
  shows "keys_ok (orders s)" "(oid, a) \<in> set (orders s)" "orderId (heap s a) = oid"
proof -
  from inv have I: "index_ok (heap s) (orders s)" by (simp add: book_inv_def)
  then show k: "keys_ok (orders s)" by (simp add: index_ok_def)
  from found k show ain: "(oid, a) \<in> set (orders s)" by (simp add: m_find_Some_iff)
  with I show "orderId (heap s a) = oid" by (force simp: index_ok_def)
qed


lemma modify_as_resubmit:
  assumes inv: "book_inv s" and found: "m_find oid (orders s) = Some a" and q: "q \<noteq> 0"
  shows "addOrder impl (withdrawn s oid a p q now) (Some a) = modifyOrder impl s oid p q now"
proof -
  let ?h2 = "(heap s)(a := (heap s a)\<lparr>price := p, quantity := q, timestamp := now\<rparr>)"
  let ?s0 = "withdrawn s oid a p q now"
  note f = book_inv_found[OF inv found]
  have h0: "heap ?s0 = ?h2" "orders ?s0 = m_erase oid (orders s)"
    by (simp_all add: withdrawn_alt[OF found])
  have nf: "m_find oid (m_erase oid (orders s)) = None"
    by (force simp: m_find_None_iff set_m_erase)
  have reput: "m_put oid a (m_erase oid (orders s)) = orders s"
    by (rule m_put_m_erase[OF f(1,2)])
  have st: "?s0\<lparr>orders := orders s\<rparr> = (removeOrderFromPriceLevel s a)\<lparr>heap := ?h2\<rparr>"
    unfolding withdrawn_alt[OF found]
    by (cases s; cases "side (heap s a)")
       (simp_all add: removeOrderFromPriceLevel_alt setPriceLevelMap_def)
  show ?thesis
    using q found f(3) by (simp add: addOrder_def modifyOrder_def Let_def h0 nf reput st)
qed

lemma matchOrders_own_side:
  assumes mo: "matchOrders s n = Inr s'" and q: "quantity (heap s' n) \<noteq> 0"
  shows "getPriceLevelMap (side (heap s n)) s' = getPriceLevelMap (side (heap s n)) s"
proof -
  let ?osd = "other_side (side (heap s n))"
  obtain res where res: "match_loop n (heap s) (orders s) (getPriceLevelMap ?osd s) (trades s) = Inr res"
    using mo unfolding matchOrders_alt by (auto split: sum.splits)
  obtain h' idx' opp' tr' where r: "res = (h', idx', opp', tr')" by (cases res)
  show ?thesis
  proof (cases "quantity (h' n) = 0")
    case True
    with mo res r have "heap s' = h'" unfolding matchOrders_alt by auto
    with True q show ?thesis by simp
  next
    case False
    with mo res r have "s' = setPriceLevelMap ?osd opp' (s\<lparr>heap := h', orders := idx', trades := tr'\<rparr>)"
      unfolding matchOrders_alt by auto
    then show ?thesis by simp
  qed
qed

lemma double_plus_commute: "double_plus a b = double_plus b a"
  by (simp add: double_plus_def add.commute)

lemma fills_static: "same_static h h' \<Longrightarrow> fills h' n = fills h n"
  by (auto simp: fills_def same_static_def fun_eq_iff)

lemma match_step_fills: "match_step n r h = Inr (t, h') \<Longrightarrow> fills h n t r"
  by (auto simp: match_step_def executeTrade_def fills_def Let_def double_plus_commute
        split: if_splits)

lemma match_level_trades:
  assumes "match_level n h idx l tr = Inr (h', idx', l', tr')"
  shows "same_static h h' \<and>
         (\<exists>ms new. tr' = tr @ new \<and> list_all2 (fills h n) new ms \<and> prefix ms l \<and>
                  (l' = [] \<longrightarrow> ms = l))"
  using assms
proof (induction n h idx l tr rule: match_level.induct)
  case (1 n h idx l tr)
  show ?case
  proof (cases "l \<noteq> [] \<and> quantity (h n) \<noteq> 0")
    case False
    then have "match_level n h idx l tr = Inr (h, idx, l, tr)"
      by (intro match_level_stop) auto
    with "1.prems" have "tr' = tr @ []" "l' = l" "h' = h" by simp_all
    moreover have "list_all2 (fills h n) [] []" "prefix [] l" by simp_all
    ultimately show ?thesis by (intro conjI) (simp, blast)
  next
    case True
    then obtain x xs where l: "l = x # xs" by (cases l) auto
    from "1.prems" True obtain t h1 where st: "match_step n (hd l) h = Inr (t, h1)"
      by (subst (asm) match_level.simps) (auto split: sum.splits)
    then have stx: "match_step n x h = Inr (t, h1)" using l by simp
    note stat = match_step_static(1)[OF stx]
    note fl = match_step_fills[OF stx]
    show ?thesis
    proof (cases "quantity (h1 (hd l)) = 0")
      case z: True
      have "match_level n h idx l tr =
            match_level n h1 (m_erase (orderId (h1 (hd l))) idx) (tl l) (tr @ [t])"
        using True st z by (subst match_level.simps) simp
      with "1.prems" have
        rec: "match_level n h1 (m_erase (orderId (h1 (hd l))) idx) (tl l) (tr @ [t])
                = Inr (h', idx', l', tr')" by simp
      from "1.IH"(1)[OF True st refl z rec] obtain ms new where
        s1: "same_static h1 h'" and
        r: "tr' = (tr @ [t]) @ new" "list_all2 (fills h1 n) new ms" "prefix ms (tl l)"
           "l' = [] \<longrightarrow> ms = tl l" by blast
      have s: "same_static h h'" by (rule same_static_trans[OF stat s1])
      have a: "tr' = tr @ (t # new)" using r(1) by simp
      have b: "list_all2 (fills h n) (t # new) (x # ms)"
        using r(2) fl unfolding fills_static[OF stat] by simp
      have c: "prefix (x # ms) l" using r(3) l by simp
      have d: "l' = [] \<longrightarrow> x # ms = l" using r(4) l by simp
      from a b c d have "\<exists>ms new. tr' = tr @ new \<and> list_all2 (fills h n) new ms \<and>
          prefix ms l \<and> (l' = [] \<longrightarrow> ms = l)" by blast
      with s show ?thesis by simp
    next
      case nz: False
      from match_step_progress(2)[OF st] nz have qn: "quantity (h1 n) = 0" by simp
      have "match_level n h idx l tr = match_level n h1 idx l (tr @ [t])"
        using True st nz by (subst match_level.simps) simp
      also have "\<dots> = Inr (h1, idx, l, tr @ [t])" using qn by (intro match_level_stop) simp
      finally have e: "tr' = tr @ [t]" "l' = l" "h' = h1" using "1.prems" by simp_all
      moreover have "list_all2 (fills h n) [t] [x]" using fl by simp
      moreover have "prefix [x] l" using l by simp
      moreover have "l \<noteq> []" using l by simp
      ultimately have "\<exists>ms new. tr' = tr @ new \<and> list_all2 (fills h n) new ms \<and>
          prefix ms l \<and> (l' = [] \<longrightarrow> ms = l)" by blast
      with stat e(3) show ?thesis by simp
    qed
  qed
qed

lemma priority_queue_best:
  assumes "opp \<noteq> []"
  shows "priority_queue sd opp = snd (best_level sd opp) @ priority_queue sd (erase_best sd opp)"
proof (cases "sd = BUY")
  case True
  with assms show ?thesis
    by (cases opp) (simp_all add: priority_queue_def best_level_def erase_best_def)
next
  case False
  with assms show ?thesis
    by (cases opp rule: rev_cases) (simp_all add: priority_queue_def best_level_def erase_best_def)
qed

lemma match_loop_trades:
  assumes "match_loop n h idx opp tr = Inr (h', idx', opp', tr')"
  shows "\<exists>ms new. tr' = tr @ new \<and> list_all2 (fills h n) new ms \<and>
                  prefix ms (priority_queue (side (h n)) opp)"
  using assms
proof (induction n h idx opp tr rule: match_loop.induct)
  case (1 n h idx opp tr)
  let ?sd = "side (h n)"
  have none: ?case if "match_loop n h idx opp tr = Inr (h, idx, opp, tr)"
  proof -
    from that "1.prems" have "tr' = tr @ []" by simp
    moreover have "list_all2 (fills h n) [] []" "prefix [] (priority_queue ?sd opp)" by simp_all
    ultimately show ?thesis by blast
  qed
  show ?case
  proof (cases "quantity (h n) \<noteq> 0 \<and> opp \<noteq> [] \<and> canMatch (h n) (fst (best_level ?sd opp))")
    case False
    then have "match_loop n h idx opp tr = Inr (h, idx, opp, tr)"
      by (intro match_loop_stop) auto
    then show ?thesis by (rule none)
  next
    case True
    then have cond: "quantity (h n) \<noteq> 0 \<and> opp \<noteq> []"
      and nn: "\<not> \<not> canMatch (h n) (fst (best_level ?sd opp))" by simp_all
    let ?lv = "snd (best_level ?sd opp)"
    from "1.prems" True obtain res1 where res1: "match_level n h idx ?lv tr = Inr res1"
      by (subst (asm) match_loop.simps) (auto split: sum.splits)
    obtain h1 idx1 l1 tr1 where r1: "res1 = (h1, idx1, l1, tr1)" by (cases res1)
    note ml = res1[unfolded r1]
    from match_level_trades[OF ml] obtain ms1 new1 where
      st: "same_static h h1" and
      t1: "tr1 = tr @ new1" "list_all2 (fills h n) new1 ms1" "prefix ms1 ?lv"
          "l1 = [] \<longrightarrow> ms1 = ?lv" by blast
    have sd1: "side (h1 n) = ?sd" by (rule same_static_fields(2)[OF st])
    have pq: "priority_queue ?sd opp = ?lv @ priority_queue ?sd (erase_best ?sd opp)"
      using cond by (intro priority_queue_best) simp
    show ?thesis
    proof (cases "l1 = []")
      case e: True
      have "match_loop n h idx opp tr = match_loop n h1 idx1 (erase_best ?sd opp) tr1"
        using cond nn ml e by (subst match_loop.simps) simp
      with "1.prems" have rec: "match_loop n h1 idx1 (erase_best ?sd opp) tr1
                                 = Inr (h', idx', opp', tr')" by simp
      from "1.IH"(1)[OF cond nn ml refl refl refl e rec] obtain ms new where
        r: "tr' = tr1 @ new" "list_all2 (fills h1 n) new ms"
           "prefix ms (priority_queue (side (h1 n)) (erase_best ?sd opp))" by blast
      from e t1(4) have m1: "ms1 = ?lv" by simp
      have a: "tr' = tr @ (new1 @ new)" using r(1) t1(1) by simp
      have b: "list_all2 (fills h n) (new1 @ new) (?lv @ ms)"
        using t1(2) r(2) unfolding fills_static[OF st] m1 by (rule list_all2_appendI)
      have c: "prefix (?lv @ ms) (priority_queue ?sd opp)"
        using r(3) unfolding sd1 pq by simp
      from a b c show ?thesis by blast
    next
      case ne: False
      from match_level_exit[OF ml] ne have qn: "quantity (h1 n) = 0" by simp
      let ?opp1 = "write_best ?sd (fst (best_level ?sd opp), l1) opp"
      have "match_loop n h idx opp tr = match_loop n h1 idx1 ?opp1 tr1"
        using cond nn ml ne by (subst match_loop.simps) simp
      also have "\<dots> = Inr (h1, idx1, ?opp1, tr1)" using qn by (intro match_loop_stop) simp
      finally have "tr' = tr1" using "1.prems" by simp
      then have a: "tr' = tr @ new1" using t1(1) by simp
      from t1(3) have c: "prefix ms1 (priority_queue ?sd opp)"
        unfolding pq by (rule prefix_prefix)
      from a t1(2) c show ?thesis by blast
    qed
  qed
qed

lemma matchOrders_trades:
  assumes "matchOrders s n = Inr s'"
  shows "\<exists>ms new. trades s' = trades s @ new \<and> list_all2 (fills (heap s) n) new ms \<and>
           prefix ms (priority_queue (side (heap s n))
                        (getPriceLevelMap (other_side (side (heap s n))) s))"
proof -
  let ?osd = "other_side (side (heap s n))"
  obtain res where res: "match_loop n (heap s) (orders s) (getPriceLevelMap ?osd s) (trades s) = Inr res"
    using assms unfolding matchOrders_alt by (auto split: sum.splits)
  obtain h' idx' opp' tr' where r: "res = (h', idx', opp', tr')" by (cases res)
  from assms res r have "trades s' = tr'"
    unfolding matchOrders_alt by (auto split: if_splits)
  with match_loop_trades[OF res[unfolded r]] show ?thesis by simp
qed

lemma sorted_wrt_level:
  assumes "level_ok h osd lv"
  shows "sorted_wrt (precedes sd h) (snd lv)"
proof -
  from assms have "sorted (map (\<lambda>a. timestamp (h a)) (snd lv))"
    and same: "\<forall>a\<in>set (snd lv). price (h a) = fst lv" by (simp_all add: level_ok_def)
  then have "sorted_wrt (\<lambda>a b. timestamp (h a) \<le> timestamp (h b)) (snd lv)"
    by (simp add: sorted_map)
  then show ?thesis
    by (rule sorted_wrt_mono_rel[rotated]) (use same in \<open>auto simp: precedes_def\<close>)
qed

lemma priority_queue_sorted:
  assumes "side_ok h osd opp"
  shows "sorted_wrt (precedes sd h) (priority_queue sd opp)"
proof (cases "sd = BUY")
  case True
  have "sorted_wrt (precedes BUY h) (concat (map snd opp))" using assms
  proof (induction opp)
    case Nil
    then show ?case by simp
  next
    case (Cons x m)
    then have ok: "side_ok h osd m" and lx: "level_ok h osd x"
      and lt: "\<forall>y\<in>set m. fst x < fst y"
      by (auto simp: side_ok_def keys_ok_Cons)
    have cross: "precedes BUY h a b" if "a \<in> set (snd x)" "b \<in> set (concat (map snd m))" for a b
    proof -
      from that(2) obtain y where y: "y \<in> set m" "b \<in> set (snd y)" by auto
      with ok have "price (h b) = fst y" by (auto simp: side_ok_def level_ok_def)
      moreover from lx that(1) have "price (h a) = fst x" by (simp add: level_ok_def)
      ultimately show ?thesis using lt y(1) by (simp add: precedes_def)
    qed
    from Cons.IH[OF ok] sorted_wrt_level[OF lx, of BUY] cross show ?case
      by (simp add: sorted_wrt_append)
  qed
  with True show ?thesis by (simp add: priority_queue_def)
next
  case False
  then have sd: "sd = SELL" by (cases sd) auto
  have "sorted_wrt (precedes SELL h) (concat (map snd (rev opp)))" using assms
  proof (induction opp)
    case Nil
    then show ?case by simp
  next
    case (Cons x m)
    then have ok: "side_ok h osd m" and lx: "level_ok h osd x"
      and lt: "\<forall>y\<in>set m. fst x < fst y"
      by (auto simp: side_ok_def keys_ok_Cons)
    have cross: "precedes SELL h b a" if "a \<in> set (snd x)" "b \<in> set (concat (map snd (rev m)))" for a b
    proof -
      from that(2) obtain y where y: "y \<in> set m" "b \<in> set (snd y)" by auto
      with ok have "price (h b) = fst y" by (auto simp: side_ok_def level_ok_def)
      moreover from lx that(1) have "price (h a) = fst x" by (simp add: level_ok_def)
      ultimately show ?thesis using lt y(1) by (simp add: precedes_def)
    qed
    from Cons.IH[OF ok] sorted_wrt_level[OF lx, of SELL] cross show ?case
      by (simp add: sorted_wrt_append)
  qed
  with sd show ?thesis by (simp add: priority_queue_def)
qed

lemma addOrder_trades:
  assumes inv: "book_inv s" and acc: "\<not> add_rejected s (Some n)"
  shows "\<exists>s' new ms. addOrder impl s (Some n) = Inr (True, s') \<and> trades s' = trades s @ new \<and>
           list_all2 (fills (heap s) n) new ms \<and>
           prefix ms (priority_queue (side (heap s n))
                        (getPriceLevelMap (other_side (side (heap s n))) s))"
proof -
  from acc have q: "quantity (heap s n) \<noteq> 0"
    and new: "m_find (orderId (heap s n)) (orders s) = None"
    by (simp_all add: add_rejected_def)
  let ?s2 = "addOrderToPriceLevel impl (s\<lparr>orders := m_put (orderId (heap s n)) n (orders s)\<rparr>) n"
  from addOrder_inv[OF inv q new] obtain s' where r: "addOrder impl s (Some n) = Inr (True, s')"
    by blast
  with q new have mo: "matchOrders ?s2 n = Inr s'"
    by (auto simp: addOrder_def split: sum.splits)
  have s2: "heap ?s2 = heap s" "trades ?s2 = trades s"
    "getPriceLevelMap (other_side (side (heap s n))) ?s2
       = getPriceLevelMap (other_side (side (heap s n))) s"
    by (simp_all add: addOrderToPriceLevel_alt)
  from matchOrders_trades[OF mo] r show ?thesis unfolding s2 by blast
qed

lemma modifyOrder_trades:
  assumes inv: "book_inv s" and found: "m_find oid (orders s) = Some a"
  shows "\<exists>s' new ms. modifyOrder impl s oid newPrice newQuantity now = Inr (True, s') \<and>
           trades s' = trades s @ new \<and>
           list_all2 (fills ((heap s)(a := (heap s a)\<lparr>price := newPrice,
                        quantity := newQuantity, timestamp := now\<rparr>)) a) new ms \<and>
           prefix ms (priority_queue (side (heap s a))
                        (getPriceLevelMap (other_side (side (heap s a))) s))"
proof -
  let ?h2 = "(heap s)(a := (heap s a)\<lparr>price := newPrice, quantity := newQuantity, timestamp := now\<rparr>)"
  let ?s3 = "addOrderToPriceLevel impl ((removeOrderFromPriceLevel s a)\<lparr>heap := ?h2\<rparr>) a"
  from modifyOrder_inv[OF inv found, of impl newPrice newQuantity now] obtain s' where
    r: "modifyOrder impl s oid newPrice newQuantity now = Inr (True, s')" by blast
  with found have mo: "matchOrders ?s3 a = Inr s'"
    by (auto simp: modifyOrder_def Let_def split: sum.splits)
  have s3: "heap ?s3 = ?h2" "trades ?s3 = trades s" by simp_all
  have sd: "side (?h2 a) = side (heap s a)" by simp
  have opp: "getPriceLevelMap (other_side (side (heap s a))) ?s3
               = getPriceLevelMap (other_side (side (heap s a))) s"
    by (simp add: addOrderToPriceLevel_alt removeOrderFromPriceLevel_alt)
  from matchOrders_trades[OF mo] r show ?thesis unfolding s3 sd opp by blast
qed





lemma sorted_before_in:
  assumes "sorted (map f xs)" "b \<in> set xs" "a \<in> set xs" "f b < f a"
  shows "before_in xs b a"
  using assms
proof (induction xs)
  case Nil
  then show ?case by simp
next
  case (Cons x xs)
  show ?case
  proof (cases "x = b")
    case True
    with Cons.prems(3,4) show ?thesis by (auto simp: before_in_def)
  next
    case False
    with Cons.prems(2) have b: "b \<in> set xs" by simp
    from Cons.prems(1) b have "f x \<le> f b" by simp
    with Cons.prems(4) have "a \<noteq> x" by auto
    with Cons.prems(3) have a: "a \<in> set xs" by simp
    from Cons.prems(1) have "sorted (map f xs)" by simp
    from Cons.IH[OF this b a Cons.prems(4)] False show ?thesis by (simp add: before_in_def)
  qed
qed



lemma queue_at_levels:
  "queue_at s sd p = (case m_find p (getPriceLevelMap sd s) of None \<Rightarrow> [] | Some l \<Rightarrow> l)"
  by (simp add: queue_at_def)








lemma match_level_index:
  "match_level n h idx l tr = Inr (h', idx', l', tr') \<Longrightarrow> set idx' \<subseteq> set idx"
proof (induction n h idx l tr rule: match_level.induct)
  case (1 n h idx l tr)
  show ?case
  proof (cases "l \<noteq> [] \<and> quantity (h n) \<noteq> 0")
    case False
    then have "match_level n h idx l tr = Inr (h, idx, l, tr)"
      by (intro match_level_stop) auto
    with "1.prems" show ?thesis by simp
  next
    case True
    from "1.prems" True obtain t h1 where st: "match_step n (hd l) h = Inr (t, h1)"
      by (subst (asm) match_level.simps) (auto split: sum.splits)
    show ?thesis
    proof (cases "quantity (h1 (hd l)) = 0")
      case z: True
      have "match_level n h idx l tr =
            match_level n h1 (m_erase (orderId (h1 (hd l))) idx) (tl l) (tr @ [t])"
        using True st z by (subst match_level.simps) simp
      with "1.prems" have
        "match_level n h1 (m_erase (orderId (h1 (hd l))) idx) (tl l) (tr @ [t])
           = Inr (h', idx', l', tr')" by simp
      from "1.IH"(1)[OF True st refl z this] show ?thesis by (auto simp: set_m_erase)
    next
      case nz: False
      have "match_level n h idx l tr = match_level n h1 idx l (tr @ [t])"
        using True st nz by (subst match_level.simps) simp
      with "1.prems" have "match_level n h1 idx l (tr @ [t]) = Inr (h', idx', l', tr')" by simp
      from "1.IH"(2)[OF True st refl nz this] show ?thesis .
    qed
  qed
qed

lemma match_loop_index:
  "match_loop n h idx opp tr = Inr (h', idx', opp', tr') \<Longrightarrow> set idx' \<subseteq> set idx"
proof (induction n h idx opp tr rule: match_loop.induct)
  case (1 n h idx opp tr)
  let ?sd = "side (h n)"
  show ?case
  proof (cases "quantity (h n) \<noteq> 0 \<and> opp \<noteq> [] \<and> canMatch (h n) (fst (best_level ?sd opp))")
    case False
    then have "match_loop n h idx opp tr = Inr (h, idx, opp, tr)"
      by (subst match_loop.simps) auto
    with "1.prems" show ?thesis by simp
  next
    case True
    then have c: "quantity (h n) \<noteq> 0 \<and> opp \<noteq> []" and m: "\<not> \<not> canMatch (h n) (fst (best_level ?sd opp))"
      by simp_all
    from "1.prems" True obtain h1 idx1 l1 tr1 where
      lv: "match_level n h idx (snd (best_level ?sd opp)) tr = Inr (h1, idx1, l1, tr1)"
      by (subst (asm) match_loop.simps) (auto split: sum.splits)
    note sub = match_level_index[OF lv]
    show ?thesis
    proof (cases "l1 = []")
      case e: True
      have "match_loop n h idx opp tr = match_loop n h1 idx1 (erase_best ?sd opp) tr1"
        using True lv e by (subst match_loop.simps) simp
      with "1.prems" have "match_loop n h1 idx1 (erase_best ?sd opp) tr1 = Inr (h', idx', opp', tr')"
        by simp
      from "1.IH"(1)[OF c m lv refl refl refl e this] sub show ?thesis by auto
    next
      case ne: False
      have "match_loop n h idx opp tr =
            match_loop n h1 idx1 (write_best ?sd (fst (best_level ?sd opp), l1) opp) tr1"
        using True lv ne by (subst match_loop.simps) simp
      with "1.prems" have
        "match_loop n h1 idx1 (write_best ?sd (fst (best_level ?sd opp), l1) opp) tr1
           = Inr (h', idx', opp', tr')" by simp
      from "1.IH"(2)[OF c m lv refl refl refl ne this] sub show ?thesis by auto
    qed
  qed
qed

lemma matchOrders_index:
  assumes "matchOrders s n = Inr s'"
  shows "set (orders s') \<subseteq> set (orders s)"
proof -
  let ?osd = "other_side (side (heap s n))"
  obtain res where res: "match_loop n (heap s) (orders s) (getPriceLevelMap ?osd s) (trades s) = Inr res"
    using assms unfolding matchOrders_alt by (auto split: sum.splits)
  obtain h' idx' opp' tr' where r: "res = (h', idx', opp', tr')" by (cases res)
  from assms res r have "orders s' = idx' \<or> orders s' = m_erase (orderId (h' n)) idx'"
    unfolding matchOrders_alt by (auto split: if_splits)
  with match_loop_index[OF res[unfolded r]] show ?thesis by (auto simp: set_m_erase)
qed

lemma addOrder_index:
  assumes inv: "book_inv s" and r: "addOrder impl s order = Inr (ok, s')"
  shows "set (orders s') \<subseteq>
         set (orders s) \<union> (case order of None \<Rightarrow> {} | Some a \<Rightarrow> {(orderId (heap s a), a)})"
proof (cases "add_rejected s order")
  case True
  then have "addOrder impl s order = Inr (False, s)"
    by (intro addOrder_rejected) (simp add: add_rejected_iff)
  with r show ?thesis by auto
next
  case False
  then obtain a where a: "order = Some a" "quantity (heap s a) \<noteq> 0"
    "m_find (orderId (heap s a)) (orders s) = None"
    by (cases order) (auto simp: add_rejected_def)
  let ?s2 = "addOrderToPriceLevel impl (s\<lparr>orders := m_put (orderId (heap s a)) a (orders s)\<rparr>) a"
  from r a have "matchOrders ?s2 a = Inr s'"
    by (auto simp: addOrder_def split: sum.splits)
  from matchOrders_index[OF this] have "set (orders s') \<subseteq> set (m_put (orderId (heap s a)) a (orders s))"
    by simp
  moreover from inv have "keys_ok (orders s)" by (simp add: book_inv_def index_ok_def)
  ultimately show ?thesis using a(1) by (auto simp: set_m_put)
qed

lemma modifyOrder_index:
  assumes "modifyOrder impl s oid newPrice newQuantity now = Inr (ok, s')"
  shows "set (orders s') \<subseteq> set (orders s)"
proof (cases "m_find oid (orders s)")
  case None
  with assms show ?thesis by (simp add: modifyOrder_def)
next
  case (Some a)
  let ?h2 = "(heap s)(a := (heap s a)\<lparr>price := newPrice, quantity := newQuantity, timestamp := now\<rparr>)"
  let ?s3 = "addOrderToPriceLevel impl ((removeOrderFromPriceLevel s a)\<lparr>heap := ?h2\<rparr>) a"
  from assms Some have "matchOrders ?s3 a = Inr s'"
    by (auto simp: modifyOrder_def Let_def split: sum.splits)
  from matchOrders_index[OF this] show ?thesis by simp
qed

lemma cancelOrder_index: "set (orders (snd (cancelOrder s oid))) \<subseteq> set (orders s)"
  by (auto simp: cancelOrder_def set_m_erase split: option.splits)

lemma apply_op_priced:
  assumes inv: "book_inv s" and pr: "priced h s" and pos: "positive_op h op"
  shows "\<exists>s'. apply_op impl s op = Inr s' \<and> book_inv s' \<and> priced h s'"
proof (cases op)
  case (AddOrder order)
  from addOrder_total[OF inv, of impl order] obtain ok s' where
    r: "addOrder impl s order = Inr (ok, s')" "book_inv s'" "same_static (heap s) (heap s')" by blast
  note sub = addOrder_index[OF inv r(1)]
  have p: "price (heap s' x) = price (heap s x)" for x
    by (rule same_static_fields(3)[OF r(3)])
  have "0 < price (heap s' (snd ka))" if ka: "ka \<in> set (orders s')" for ka
  proof (cases "ka \<in> set (orders s)")
    case True
    with pr show ?thesis by (simp add: priced_def p)
  next
    case False
    with sub ka obtain a where a: "order = Some a" "snd ka = a"
      by (cases order) auto
    with pos AddOrder have "0 < price (h a)" by (simp add: positive_op_def)
    with pr a(2) show ?thesis unfolding priced_def p by metis
  qed
  moreover have "price (heap s' x) = price (h x) \<or> 0 < price (heap s' x)" for x
    using pr by (simp add: priced_def p)
  ultimately have "priced h s'" by (simp add: priced_def)
  with r AddOrder show ?thesis by simp
next
  case (CancelOrder oid)
  have "priced h (snd (cancelOrder s oid))"
    using pr cancelOrder_index[of s oid] by (auto simp: priced_def)
  with CancelOrder cancelOrder_inv[OF inv, of oid] show ?thesis by simp
next
  case (ModifyOrder oid p q now)
  with pos have p: "0 < p" by (simp add: positive_op_def)
  show ?thesis
  proof (cases "m_find oid (orders s)")
    case None
    then have "modifyOrder impl s oid p q now = Inr (False, s)" by (simp add: modifyOrder_def)
    with ModifyOrder inv pr show ?thesis by simp
  next
    case (Some a)
    let ?h2 = "(heap s)(a := (heap s a)\<lparr>price := p, quantity := q, timestamp := now\<rparr>)"
    from modifyOrder_inv[OF inv Some, of impl p q now] obtain s' where
      r: "modifyOrder impl s oid p q now = Inr (True, s')" "book_inv s'"
         "same_static ?h2 (heap s')" by blast
    note sub = modifyOrder_index[OF r(1)]
    have e: "price (heap s' x) = (if x = a then p else price (heap s x))" for x
      using same_static_fields(3)[OF r(3), of x] by simp
    have "0 < price (heap s' (snd ka))" if "ka \<in> set (orders s')" for ka
      using that sub pr p by (auto simp: priced_def e)
    moreover have "price (heap s' x) = price (h x) \<or> 0 < price (heap s' x)" for x
      using pr p by (simp add: priced_def e)
    ultimately have "priced h s'" by (simp add: priced_def)
    with r ModifyOrder show ?thesis by simp
  qed
next
  case Clear
  have "priced h (clear s)" using pr by (simp add: priced_def clear_def)
  with Clear clear_inv[of s] show ?thesis by simp
qed

lemma run_priced:
  assumes "book_inv s" "priced h s" "\<forall>op\<in>set ops. positive_op h op"
  shows "\<exists>s'. run impl s ops = Inr s' \<and> book_inv s' \<and> priced h s'"
  using assms
proof (induction ops arbitrary: s)
  case Nil
  then show ?case by simp
next
  case (Cons op ops)
  from Cons.prems(3) have pm: "positive_op h op" "\<forall>op\<in>set ops. positive_op h op" by simp_all
  from apply_op_priced[OF Cons.prems(1,2) pm(1), of impl] obtain s1 where
    s1: "apply_op impl s op = Inr s1" "book_inv s1" "priced h s1" by blast
  from Cons.IH[OF s1(2,3) pm(2)] s1(1) show ?case by simp
qed

section \<open>Claims\<close>



text \<open>
  C5. The invariant \<open>book_inv\<close> holds of the empty book and every public operation
  (\<open>addOrder\<close>, \<open>cancelOrder\<close>, \<open>modifyOrder\<close>, \<open>clear\<close>) returns, without an exception,
  a book that satisfies it again. A book that satisfies it is well formed: no price level
  is empty, every level is found under its key, every order of the index has a non-zero
  quantity and lies exactly once in the level of its own side keyed by its own price and in
  no other level, and every order of a level is in the index under its identifier with a
  non-zero quantity; so an order whose quantity has reached zero is in neither.
\<close>

theorem operations_preserve_book_inv:
  "book_inv (empty_book h) \<and>
   (book_inv s \<longrightarrow>
      well_formed s \<and>
      (\<exists>ok s'. addOrder impl s order = Inr (ok, s') \<and> book_inv s') \<and>
      book_inv (snd (cancelOrder s oid)) \<and>
      (\<exists>ok s'. modifyOrder impl s oid newPrice newQuantity now = Inr (ok, s') \<and> book_inv s') \<and>
      book_inv (clear s))"
proof (intro conjI impI)
  show "book_inv (empty_book h)" by (rule book_inv_empty)
next
  assume inv: "book_inv s"
  show "well_formed s" by (rule book_inv_well_formed[OF inv])
  show "\<exists>ok s'. addOrder impl s order = Inr (ok, s') \<and> book_inv s'"
    using addOrder_total[OF inv, of impl order] by blast
  show "book_inv (snd (cancelOrder s oid))" by (rule cancelOrder_inv[OF inv])
  show "\<exists>ok s'. modifyOrder impl s oid newPrice newQuantity now = Inr (ok, s') \<and> book_inv s'"
    by (rule modifyOrder_total[OF inv])
  show "book_inv (clear s)" by (rule clear_inv)
qed

theorem operations_preserve_book_inv_witness:
  "\<exists>s1 s2. addOrder stable_sort (empty_book testPartialOrderMatching_heap) (Some 1) = Inr (True, s1)
      \<and> book_inv s1 \<and> well_formed s1 \<and> orders s1 = [(1, 1)] \<and> asks s1 = [(100.5, [1])]
      \<and> addOrder stable_sort s1 (Some 2) = Inr (True, s2)
      \<and> book_inv s2 \<and> well_formed s2 \<and> orders s2 = [(2, 2)] \<and> bids s2 = [(100.5, [2])]
      \<and> asks s2 = [] \<and> quantity (heap s2 2) = 50"
proof -
  let ?e = "empty_book testPartialOrderMatching_heap"
  note inst = operations_preserve_book_inv[where h = testPartialOrderMatching_heap
      and impl = stable_sort]
  from inst[where s = ?e and order = "Some 1"] obtain ok1 s1 where
    s1: "addOrder stable_sort ?e (Some 1) = Inr (ok1, s1)" "book_inv s1" by blast
  have e1: "addOrder stable_sort ?e (Some 1) =
              Inr (True, \<lparr>heap = testPartialOrderMatching_heap, orders = [(1, 1)], bids = [],
                         asks = [(100.5, [1])], trades = []\<rparr>)"
    by (simp add: book_defs double_defs testPartialOrderMatching_heap_def)
  from inst[where s = s1 and order = "Some 2"] s1(2) obtain ok2 s2 where
    s2: "addOrder stable_sort s1 (Some 2) = Inr (ok2, s2)" "book_inv s2" "well_formed s1" by blast
  from inst[where s = s2] s2(2) have w2: "well_formed s2" by blast
  from s1(1) e1 have s1_eq: "ok1 = True"
      "s1 = \<lparr>heap = testPartialOrderMatching_heap, orders = [(1, 1)], bids = [],
             asks = [(100.5, [1])], trades = []\<rparr>" by simp_all
  have e2: "\<exists>h. addOrder stable_sort s1 (Some 2) =
              Inr (True, \<lparr>heap = h, orders = [(2, 2)], bids = [(100.5, [2])],
                         asks = [], trades = [\<lparr>buyOrderId = 2, sellOrderId = 1,
                           tradePrice = Finite 100.5, tradeQuantity = 100\<rparr>]\<rparr>) \<and> quantity (h 2) = 50"
    unfolding s1_eq by (simp add: book_defs double_defs testPartialOrderMatching_heap_def)
  with s2(1) have "ok2 = True \<and> orders s2 = [(2, 2)] \<and> bids s2 = [(100.5, [2])]
      \<and> asks s2 = [] \<and> quantity (heap s2 2) = 50" by auto
  with s1 s2 w2 s1_eq show ?thesis by auto
qed

text \<open>
  C4. \<open>addOrder\<close> returns failure and the unchanged book when the order is null, its
  quantity is zero or its identifier is already in the index (in any state whatever); in
  every other case, on a book that satisfies the invariant, it returns success, whether
  or not a trade took place; so on such a book it fails exactly in those three cases.
\<close>

theorem addOrder_fails_exactly_when_rejected:
  "(add_rejected s order \<longrightarrow> addOrder impl s order = Inr (False, s)) \<and>
   (book_inv s \<longrightarrow> \<not> add_rejected s order \<longrightarrow> (\<exists>s'. addOrder impl s order = Inr (True, s'))) \<and>
   (book_inv s \<longrightarrow> ((\<exists>s'. addOrder impl s order = Inr (False, s')) \<longleftrightarrow> add_rejected s order))"
proof -
  have rej: "addOrder impl s order = Inr (False, s)" if "add_rejected s order"
    using that by (intro addOrder_rejected) (simp add: add_rejected_iff)
  have acc: "\<exists>s'. addOrder impl s order = Inr (True, s')" if "book_inv s" "\<not> add_rejected s order"
  proof -
    from that(2) obtain a where a: "order = Some a" "quantity (heap s a) \<noteq> 0"
      "m_find (orderId (heap s a)) (orders s) = None"
      by (cases order) (auto simp: add_rejected_def)
    from addOrder_inv[OF that(1) a(2,3)] a(1) show ?thesis by blast
  qed
  have "(\<exists>s'. addOrder impl s order = Inr (False, s')) \<longleftrightarrow> add_rejected s order" if "book_inv s"
  proof
    assume f: "\<exists>s'. addOrder impl s order = Inr (False, s')"
    show "add_rejected s order"
    proof (rule ccontr)
      assume "\<not> add_rejected s order"
      from acc[OF that this] f show False by auto
    qed
  next
    assume "add_rejected s order"
    from rej[OF this] show "\<exists>s'. addOrder impl s order = Inr (False, s')" by blast
  qed
  with rej acc show ?thesis by blast
qed

theorem addOrder_fails_exactly_when_rejected_witness:
  "add_rejected (empty_book testCompleteOrderMatching_heap) None
   \<and> addOrder stable_sort (empty_book testCompleteOrderMatching_heap) None
       = Inr (False, empty_book testCompleteOrderMatching_heap)
   \<and> add_rejected (empty_book testCompleteOrderMatching_heap) (Some 0)
   \<and> addOrder stable_sort (empty_book testCompleteOrderMatching_heap) (Some 0)
       = Inr (False, empty_book testCompleteOrderMatching_heap)
   \<and> (\<exists>s1 s2. addOrder stable_sort (empty_book testCompleteOrderMatching_heap) (Some 1) = Inr (True, s1)
        \<and> book_inv s1
        \<and> add_rejected s1 (Some 1) \<and> addOrder stable_sort s1 (Some 1) = Inr (False, s1)
        \<and> \<not> add_rejected s1 (Some 2) \<and> addOrder stable_sort s1 (Some 2) = Inr (True, s2)
        \<and> getOrderCount s2 = 0 \<and> length (trades s2) = 1)"
proof -
  let ?e = "empty_book testCompleteOrderMatching_heap"
  note inst = addOrder_fails_exactly_when_rejected[where impl = stable_sort]
  have r0: "add_rejected ?e None" "add_rejected ?e (Some 0)"
    by (simp_all add: add_rejected_def testCompleteOrderMatching_heap_def default_order_def empty_book_def)
  from inst[where s = ?e and order = None] r0(1) have a0: "addOrder stable_sort ?e None = Inr (False, ?e)" by blast
  from inst[where s = ?e and order = "Some 0"] r0(2) have a0': "addOrder stable_sort ?e (Some 0) = Inr (False, ?e)" by blast
  from addOrder_total[OF book_inv_empty, of stable_sort testCompleteOrderMatching_heap "Some 1"]
  obtain ok1 s1 where s1: "addOrder stable_sort ?e (Some 1) = Inr (ok1, s1)" "book_inv s1" by blast
  have e1: "addOrder stable_sort ?e (Some 1) =
              Inr (True, \<lparr>heap = testCompleteOrderMatching_heap, orders = [(1, 1)], bids = [],
                         asks = [(100.5, [1])], trades = []\<rparr>)"
    by (simp add: book_defs double_defs testCompleteOrderMatching_heap_def)
  with s1(1) have s1_eq: "ok1 = True"
      "s1 = \<lparr>heap = testCompleteOrderMatching_heap, orders = [(1, 1)], bids = [],
             asks = [(100.5, [1])], trades = []\<rparr>" by simp_all
  have r1: "add_rejected s1 (Some 1)" "\<not> add_rejected s1 (Some 2)"
    unfolding s1_eq by (simp_all add: add_rejected_def testCompleteOrderMatching_heap_def m_find_def)
  from inst[where s = s1 and order = "Some 1"] r1(1) have a1: "addOrder stable_sort s1 (Some 1) = Inr (False, s1)" by blast
  from inst[where s = s1 and order = "Some 2"] r1(2) s1(2) obtain s2 where
    s2: "addOrder stable_sort s1 (Some 2) = Inr (True, s2)" by blast
  have "\<exists>s'. addOrder stable_sort s1 (Some 2) = Inr (True, s') \<and> getOrderCount s' = 0 \<and> length (trades s') = 1"
    unfolding s1_eq by (simp add: book_defs double_defs testCompleteOrderMatching_heap_def)
  with s2 have "getOrderCount s2 = 0 \<and> length (trades s2) = 1" by auto
  with r0 a0 a0' s1 s1_eq(1) r1 a1 s2 show ?thesis by blast
qed

text \<open>
  C6. Every finite sequence of operations from the empty book ends, without an exception
  and whatever the implementation of \<open>std::sort\<close>, in a book in which the best bid, when
  both sides are non-empty, is not above the best ask (it is strictly below it); the
  spread that \<open>getSpread\<close> then computes in \<open>double\<close> arithmetic is not negative.
\<close>

theorem spread_never_negative:
  "\<exists>s. run impl (empty_book h) ops = Inr s \<and>
        (\<forall>b a. getBestBid s = Some b \<longrightarrow> getBestAsk s = Some a \<longrightarrow> b \<le> a \<and> b < a) \<and>
        (\<forall>d. getSpread s = Some d \<longrightarrow> double_nonneg d)"
proof -
  from run_inv[OF book_inv_empty, of impl h ops] obtain s where
    s: "run impl (empty_book h) ops = Inr s" "book_inv s" by blast
  have best: "\<forall>b a. getBestBid s = Some b \<longrightarrow> getBestAsk s = Some a \<longrightarrow> b < a"
    using book_inv_best[OF s(2)] by blast
  then have le: "\<forall>b a. getBestBid s = Some b \<longrightarrow> getBestAsk s = Some a \<longrightarrow> b \<le> a \<and> b < a"
    by (simp add: less_imp_le)
  have sp: "\<forall>d. getSpread s = Some d \<longrightarrow> double_nonneg d"
  proof (intro allI impI)
    fix d assume "getSpread s = Some d"
    then obtain b a where "getBestBid s = Some b" "getBestAsk s = Some a" "d = double_minus a b"
      by (auto simp: getSpread_def split: option.splits)
    with best show "double_nonneg d" by (simp add: double_minus_def round_double_nonneg)
  qed
  from s(1) le sp show ?thesis by blast
qed

theorem spread_never_negative_witness:
  "\<exists>s. run stable_sort (empty_book testMarketCrossingOrders_heap)
          [AddOrder (Some 1), AddOrder (Some 2), AddOrder (Some 3), AddOrder (Some 4),
           AddOrder (Some 5), ModifyOrder 3 (double_literal 100.4) 150 6] = Inr s
      \<and> getBestBid s = Some 100.25 \<and> getBestAsk s = Some (double_literal 100.4)
      \<and> (100.25 :: real) \<le> double_literal 100.4
      \<and> getSpread s = Some (Finite (5277655813325 / 35184372088832))
      \<and> double_nonneg (Finite (5277655813325 / 35184372088832))"
proof -
  let ?ops = "[AddOrder (Some 1), AddOrder (Some 2), AddOrder (Some 3), AddOrder (Some 4),
           AddOrder (Some 5), ModifyOrder 3 (double_literal 100.4) 150 6]"
  from spread_never_negative[of stable_sort testMarketCrossingOrders_heap ?ops] obtain s where
    s: "run stable_sort (empty_book testMarketCrossingOrders_heap) ?ops = Inr s"
    and le: "\<forall>b a. getBestBid s = Some b \<longrightarrow> getBestAsk s = Some a \<longrightarrow> b \<le> a \<and> b < a"
    and nn: "\<forall>d. getSpread s = Some d \<longrightarrow> double_nonneg d" by blast
  have "\<exists>s'. run stable_sort (empty_book testMarketCrossingOrders_heap) ?ops = Inr s'
      \<and> getBestBid s' = Some 100.25 \<and> getBestAsk s' = Some (double_literal 100.4)
      \<and> getSpread s' = Some (Finite (5277655813325 / 35184372088832))"
    by (simp add: book_defs double_defs testMarketCrossingOrders_heap_def)
  with s have v: "getBestBid s = Some 100.25" "getBestAsk s = Some (double_literal 100.4)"
    "getSpread s = Some (Finite (5277655813325 / 35184372088832))"
    by auto
  with le have "(100.25 :: real) \<le> double_literal 100.4" by blast
  moreover from nn v(3) have "double_nonneg (Finite (5277655813325 / 35184372088832))" by blast
  ultimately show ?thesis using s v by blast
qed

text \<open>
  C2. A match step between the incoming order and a resting order trades the minimum of
  the two quantities, changes the heap only by taking exactly that quantity off both
  orders (as numbers, with no wrap-around), and the iteration of the inner loop that makes
  the step appends that one trade to the trades emitted and goes on with the resting order
  erased when its quantity has reached zero. In the partial-matching scenario, SELL 100
  then BUY 150 at the same price give one trade of quantity 100, the BUY order resting
  with quantity 50, and a depth of 50 at that price on the buy side.
\<close>

theorem match_step_conserves_quantity:
  "(\<forall>n opp h t h'. match_step n opp h = Inr (t, h') \<longrightarrow>
       tradeQuantity t = min (quantity (h n)) (quantity (h opp)) \<and>
       quantity (h' n) = quantity (h n) - tradeQuantity t \<and>
       quantity (h' opp) = quantity (h opp) - tradeQuantity t \<and>
       unat (quantity (h' n)) + unat (tradeQuantity t) = unat (quantity (h n)) \<and>
       unat (quantity (h' opp)) + unat (tradeQuantity t) = unat (quantity (h opp)) \<and>
       (\<forall>a. a \<noteq> n \<longrightarrow> a \<noteq> opp \<longrightarrow> h' a = h a))
   \<and> (\<forall>n h idx l tr t h'.
         l \<noteq> [] \<longrightarrow> quantity (h n) \<noteq> 0 \<longrightarrow> match_step n (hd l) h = Inr (t, h') \<longrightarrow>
         match_level n h idx l tr =
           match_level n h'
             (if quantity (h' (hd l)) = 0 then m_erase (orderId (h' (hd l))) idx else idx)
             (if quantity (h' (hd l)) = 0 then tl l else l) (tr @ [t]))
   \<and> (\<exists>s. addOrders impl (empty_book testPartialOrderMatching_heap) [1, 2] = Inr s
         \<and> trades s = [\<lparr>buyOrderId = 2, sellOrderId = 1, tradePrice = Finite 100.5,
                           tradeQuantity = 100\<rparr>]
         \<and> orders s = [(2, 2)] \<and> bids s = [(100.5, [2])] \<and> asks s = []
         \<and> quantity (heap s 2) = 50 \<and> quantity (heap s 1) = 0
         \<and> getDepthAtPrice s 100.5 BUY = 50)"
proof (intro conjI allI impI)
  fix n opp h t h'
  assume st: "match_step n opp h = Inr (t, h')"
  let ?q = "min (quantity (h n)) (quantity (h opp))"
  note hp = match_step_heap[OF st]
  show tq: "tradeQuantity t = ?q"
    using st by (auto simp: match_step_def executeTrade_def Let_def split: if_splits)
  show qn: "quantity (h' n) = quantity (h n) - tradeQuantity t"
    unfolding tq using hp by simp
  show qo: "quantity (h' opp) = quantity (h opp) - tradeQuantity t"
    unfolding tq using hp by simp
  have le: "?q \<le> quantity (h n)" "?q \<le> quantity (h opp)" by simp_all
  show "unat (quantity (h' n)) + unat (tradeQuantity t) = unat (quantity (h n))"
    unfolding qn tq using le(1) by (simp add: unat_sub word_le_nat_alt)
  show "unat (quantity (h' opp)) + unat (tradeQuantity t) = unat (quantity (h opp))"
    unfolding qo tq using le(2) by (simp add: unat_sub word_le_nat_alt)
  fix a assume "a \<noteq> n" "a \<noteq> opp"
  then show "h' a = h a" by (rule match_step_static(2)[OF st])
next
  fix n h idx l tr t h'
  assume "l \<noteq> []" "quantity (h n) \<noteq> 0" "match_step n (hd l) h = Inr (t, h')"
  then show "match_level n h idx l tr =
           match_level n h'
             (if quantity (h' (hd l)) = 0 then m_erase (orderId (h' (hd l))) idx else idx)
             (if quantity (h' (hd l)) = 0 then tl l else l) (tr @ [t])"
    by (subst match_level.simps) simp
next
  show "\<exists>s. addOrders impl (empty_book testPartialOrderMatching_heap) [1, 2] = Inr s
         \<and> trades s = [\<lparr>buyOrderId = 2, sellOrderId = 1, tradePrice = Finite 100.5,
                           tradeQuantity = 100\<rparr>]
         \<and> orders s = [(2, 2)] \<and> bids s = [(100.5, [2])] \<and> asks s = []
         \<and> quantity (heap s 2) = 50 \<and> quantity (heap s 1) = 0
         \<and> getDepthAtPrice s 100.5 BUY = 50"
    by (simp add: book_defs double_defs testPartialOrderMatching_heap_def)
qed

theorem match_step_conserves_quantity_witness:
  "\<exists>t h'. match_step 2 1 testPartialOrderMatching_heap = Inr (t, h')
      \<and> quantity (testPartialOrderMatching_heap 2) = 150
      \<and> quantity (testPartialOrderMatching_heap 1) = 100
      \<and> tradeQuantity t = 100 \<and> quantity (h' 2) = 50 \<and> quantity (h' 1) = 0
      \<and> unat (quantity (h' 2)) + unat (tradeQuantity t) = 150"
proof -
  let ?H = testPartialOrderMatching_heap
  have q: "quantity (?H 2) = 150" "quantity (?H 1) = 100"
    by (simp_all add: testPartialOrderMatching_heap_def)
  have "\<exists>t h'. match_step 2 1 ?H = Inr (t, h')"
    by (simp add: match_step_def executeTrade_def Let_def testPartialOrderMatching_heap_def)
  then obtain t h' where st: "match_step 2 1 ?H = Inr (t, h')" by blast
  from match_step_conserves_quantity st have
    c: "tradeQuantity t = min (quantity (?H 2)) (quantity (?H 1))"
       "quantity (h' 2) = quantity (?H 2) - tradeQuantity t"
       "quantity (h' 1) = quantity (?H 1) - tradeQuantity t"
       "unat (quantity (h' 2)) + unat (tradeQuantity t) = unat (quantity (?H 2))"
    by blast+
  from c(1) q have t: "tradeQuantity t = 100" by simp
  from c(2,3) q t have r: "quantity (h' 2) = 50" "quantity (h' 1) = 0" by simp_all
  from c(4) q have u: "unat (quantity (h' 2)) + unat (tradeQuantity t) = 150" by simp
  have "match_step 2 1 ?H = Inr (t, h')
      \<and> quantity (?H 2) = 150 \<and> quantity (?H 1) = 100
      \<and> tradeQuantity t = 100 \<and> quantity (h' 2) = 50 \<and> quantity (h' 1) = 0
      \<and> unat (quantity (h' 2)) + unat (tradeQuantity t) = 150"
    by (intro conjI) (fact st q t r u)+
  then show ?thesis by (intro exI[of _ t] exI[of _ h'])
qed

text \<open>
  C9 as stated fails: neither \<open>addOrder\<close> nor \<open>modifyOrder\<close> looks at the price. A BUY
  order at the price -5 is accepted into the empty book and rests at the level -5;
  modifying it to the price 0 leaves it resting at the level 0.
\<close>

theorem nonpositive_price_is_accepted:
  "addOrder stable_sort (empty_book nonpositive_price_heap) (Some 1)
     = Inr (True, \<lparr>heap = nonpositive_price_heap, orders = [(1, 1)], bids = [(- 5, [1])],
                   asks = [], trades = []\<rparr>)
   \<and> price (nonpositive_price_heap 1) \<le> 0
   \<and> modifyOrder stable_sort
        \<lparr>heap = nonpositive_price_heap, orders = [(1, 1)], bids = [(- 5, [1])],
           asks = [], trades = []\<rparr> 1 0 10 2
     = Inr (True, \<lparr>heap = nonpositive_price_heap
                           (1 := \<lparr>orderId = 1, side = BUY, price = 0, quantity = 10,
                                  timestamp = 2\<rparr>),
                   orders = [(1, 1)], bids = [(0, [1])], asks = [], trades = []\<rparr>)"
  by (simp add: book_defs nonpositive_price_heap_def)

text \<open>
  C9, amended. The book accepts any price. If every order that is submitted has a strictly
  positive limit price (\<open>h\<close> holds the orders as the caller constructed them) and every
  price passed to \<open>modifyOrder\<close> is strictly positive, then after any sequence of
  operations from the empty book every order of the index has a strictly positive limit
  price and every price level has a strictly positive key. Nothing is asked of the orders
  that are never submitted.
\<close>

theorem positive_prices_stay_positive:
  "(\<forall>op\<in>set ops. positive_op h op) \<longrightarrow>
   (\<exists>s. run impl (empty_book h) ops = Inr s \<and>
        (\<forall>ka\<in>set (orders s). 0 < price (heap s (snd ka))) \<and>
        (\<forall>lv\<in>set (bids s) \<union> set (asks s). 0 < fst lv))"
proof (intro impI)
  assume pm: "\<forall>op\<in>set ops. positive_op h op"
  have "priced h (empty_book h)" by (simp add: priced_def empty_book_def)
  from run_priced[OF book_inv_empty this pm, of impl] obtain s where
    s: "run impl (empty_book h) ops = Inr s" "book_inv s" "priced h s" by blast
  from s(3) have idx: "\<forall>ka\<in>set (orders s). 0 < price (heap s (snd ka))"
    by (simp add: priced_def)
  from s(2) have B: "side_ok (heap s) BUY (bids s)" and A: "side_ok (heap s) SELL (asks s)"
    and C: "snd ` set (orders s) = addrs (bids s) \<union> addrs (asks s)"
    by (simp_all add: book_inv_def)
  have "0 < fst lv" if "lv \<in> set (bids s) \<union> set (asks s)" for lv
  proof -
    from that have "fst lv \<in> fst ` set (bids s) \<or> fst lv \<in> fst ` set (asks s)" by auto
    then have "fst lv \<in> (\<lambda>a. price (heap s a)) ` addrs (bids s)
               \<or> fst lv \<in> (\<lambda>a. price (heap s a)) ` addrs (asks s)"
      unfolding side_ok_prices[OF B] side_ok_prices[OF A] .
    then obtain a where a: "fst lv = price (heap s a)" "a \<in> addrs (bids s) \<union> addrs (asks s)"
      by blast
    from a(2) C have "a \<in> snd ` set (orders s)" by simp
    then obtain ka where "ka \<in> set (orders s)" "snd ka = a" by force
    with idx a(1) show ?thesis by auto
  qed
  with s(1) idx show "\<exists>s. run impl (empty_book h) ops = Inr s \<and>
        (\<forall>ka\<in>set (orders s). 0 < price (heap s (snd ka))) \<and>
        (\<forall>lv\<in>set (bids s) \<union> set (asks s). 0 < fst lv)" by blast
qed

theorem positive_prices_stay_positive_witness:
  "positive_op positive_price_heap (AddOrder (Some 1))
   \<and> positive_op positive_price_heap (AddOrder (Some 2))
   \<and> positive_op positive_price_heap (ModifyOrder 1 100.5 5 3)
   \<and> price (positive_price_heap 0) = 0
   \<and> (\<exists>s. run stable_sort (empty_book positive_price_heap)
              [AddOrder (Some 1), AddOrder (Some 2), ModifyOrder 1 100.5 5 3] = Inr s
          \<and> orders s = [(1, 1), (2, 2)] \<and> bids s = [(100.5, [1])] \<and> asks s = [(101, [2])]
          \<and> 0 < price (heap s 1) \<and> 0 < price (heap s 2))"
proof -
  let ?ops = "[AddOrder (Some 1), AddOrder (Some 2), ModifyOrder 1 100.5 5 3]"
  have pm: "positive_op positive_price_heap (AddOrder (Some 1))"
    "positive_op positive_price_heap (AddOrder (Some 2))"
    "positive_op positive_price_heap (ModifyOrder 1 100.5 5 3)"
    by (simp_all add: positive_op_def positive_price_heap_def)
  have z: "price (positive_price_heap 0) = 0"
    by (simp add: positive_price_heap_def default_order_def)
  from pm have "\<forall>op\<in>set ?ops. positive_op positive_price_heap op" by simp
  with positive_prices_stay_positive[of ?ops positive_price_heap stable_sort] obtain s where
    s: "run stable_sort (empty_book positive_price_heap) ?ops = Inr s"
       "\<forall>ka\<in>set (orders s). 0 < price (heap s (snd ka))" by blast
  have "\<exists>s'. run stable_sort (empty_book positive_price_heap) ?ops = Inr s'
      \<and> orders s' = [(1, 1), (2, 2)] \<and> bids s' = [(100.5, [1])] \<and> asks s' = [(101, [2])]"
    by (simp add: book_defs positive_price_heap_def)
  with s(1) have v: "orders s = [(1, 1), (2, 2)]" "bids s = [(100.5, [1])]" "asks s = [(101, [2])]"
    by auto
  with s(2) have "0 < price (heap s 1)" "0 < price (heap s 2)" by simp_all
  with pm z s(1) v show ?thesis by blast
qed

end
